theory Spec2Isabelle
  imports Complex_Main "HOL-Library.Multiset"
begin

section \<open>Run metadata of the dashboard: the data model\<close>

text \<open>
  The definitions follow the run-metadata provider of the dashboard (the module that
  declares \<^verbatim>\<open>IStepState\<close>, \<^verbatim>\<open>extractMetadataFromRun\<close> and
  \<^verbatim>\<open>extractMetadataFromLogs\<close>). JavaScript numbers are IEEE doubles. A number that
  holds a parsed log timestamp is an integer here (\<^verbatim>\<open>Number.parseInt(log.timestamp, 10)\<close>
  of a well-formed timestamp); a persisted time of a run, in fractional seconds, is the
  rational that the double is. Arithmetic on them rounds as the doubles do
  (\<open>roundDouble\<close> below).
  An optional field (\<^verbatim>\<open>start?: number\<close>) is an \<open>option\<close>, with \<open>None\<close> for
  \<^verbatim>\<open>undefined\<close> and \<^verbatim>\<open>null\<close>. Field names carry a prefix where two
  interfaces of the source share a name.
\<close>

datatype IStepState =
  PREPARING | RETRY_REQUESTED | RUNNING | SUCCEEDED | SKIPPED | FAILED | UNKNOWN

definition BOX_EXIT_STATES :: "IStepState list" where
  "BOX_EXIT_STATES = [RETRY_REQUESTED, SUCCEEDED, FAILED, UNKNOWN]"

record IMarker =
  key :: string
  marker_start :: "int option"
  marker_end :: "int option"

text \<open>
  \<^verbatim>\<open>IStepAttempt.start\<close> is declared \<^verbatim>\<open>number\<close>, but the summary fallback
  stores \<^verbatim>\<open>fromTimestamp(attempt.startTime)\<close> there through a cast, which may be
  \<^verbatim>\<open>undefined\<close>; hence an \<open>option\<close>.
\<close>

record IStepAttempt =
  att_start :: "int option"
  att_end :: "int option"
  att_exitState :: "IStepState option"

record transition =
  t_state :: IStepState
  t_time :: int

record IStepMetadata =
  step_state :: IStepState
  step_start :: "int option"
  step_end :: "int option"
  transitions :: "transition list"
  attempts :: "IStepAttempt list"
  markers :: "IMarker list"

record ILogCaptureInfo =
  lc_fileKey :: string
  lc_stepKeys :: "string list"
  lc_pid :: "string option"
  lc_externalUrl :: "string option"

record IRunMetadataDict =
  firstLogAt :: int
  mostRecentLogAt :: int
  startingProcessAt :: "int option"
  startedProcessAt :: "int option"
  startedPipelineAt :: "int option"
  exitedAt :: "int option"
  processId :: "int option"
  globalMarkers :: "IMarker list"
  steps :: "string \<rightharpoonup> IStepMetadata"
  logCaptureSteps :: "(string \<rightharpoonup> ILogCaptureInfo) option"

definition EMPTY_RUN_METADATA :: IRunMetadataDict where
  "EMPTY_RUN_METADATA =
     \<lparr>firstLogAt = 0, mostRecentLogAt = 0, startingProcessAt = None, startedProcessAt = None,
      startedPipelineAt = None, exitedAt = None, processId = None, globalMarkers = [],
      steps = Map.empty, logCaptureSteps = None\<rparr>"

subsection \<open>JavaScript truthiness and number rendering\<close>

text \<open>A number is falsy when it is absent or 0; a string when it is absent or empty.\<close>

definition truthy_num :: "int option \<Rightarrow> bool" where
  "truthy_num x = (case x of None \<Rightarrow> False | Some n \<Rightarrow> n \<noteq> 0)"

definition truthy_str :: "string option \<Rightarrow> bool" where
  "truthy_str x = (case x of None \<Rightarrow> False | Some s \<Rightarrow> s \<noteq> [])"

definition digit_char :: "nat \<Rightarrow> char" where
  "digit_char d = char_of (48 + d)"

fun string_of_nat :: "nat \<Rightarrow> string" where
  "string_of_nat n =
     (if n < 10 then [digit_char n] else string_of_nat (n div 10) @ [digit_char (n mod 10)])"

declare string_of_nat.simps [simp del]

subsection \<open>Double arithmetic\<close>

text \<open>
  The result of an arithmetic operation on doubles is the exact result rounded to the
  nearest double, ties to the even significand: with \<open>e = \<lfloor>log\<^sub>2 \<bar>x\<bar>\<rfloor>\<close> the doubles around
  \<open>x\<close> are the multiples of \<open>2\<^bsup>e - 52\<^esup>\<close>, and of \<open>2\<^bsup>-1074\<^esup>\<close> in the subnormal range.
  The overflow to \<^verbatim>\<open>Infinity\<close> from \<open>2\<^bsup>1024\<^esup>\<close> on is not modelled.
\<close>

fun bitLength :: "nat \<Rightarrow> nat" where
  "bitLength n = (if n = 0 then 0 else Suc (bitLength (n div 2)))"

declare bitLength.simps [simp del]

text \<open>\<open>\<lfloor>log\<^sub>2 \<bar>x\<bar>\<rfloor>\<close> for \<open>x \<noteq> 0\<close>.\<close>

definition expo :: "rat \<Rightarrow> int" where
  "expo x =
     (if 1 \<le> \<bar>x\<bar> then int (bitLength (nat \<lfloor>\<bar>x\<bar>\<rfloor>)) - 1
      else - int (bitLength (nat (\<lceil>1 / \<bar>x\<bar>\<rceil> - 1))))"

definition roundHalfEven :: "rat \<Rightarrow> int" where
  "roundHalfEven z =
     (let f = \<lfloor>z\<rfloor>; d = z - of_int f
      in if d < 1 / 2 then f else if 1 / 2 < d then f + 1 else if even f then f else f + 1)"

definition roundDouble :: "rat \<Rightarrow> rat" where
  "roundDouble x =
     (if x = 0 then 0
      else (let p = max (expo x - 52) (- 1074)
            in of_int (roundHalfEven (x / 2 powi p)) * 2 powi p))"

text \<open>\<^verbatim>\<open>a + b\<close> on two doubles that are integers.\<close>

definition addDouble :: "int \<Rightarrow> int \<Rightarrow> int" where
  "addDouble a b = \<lfloor>roundDouble (of_int (a + b))\<rfloor>"

text \<open>\<^verbatim>\<open>Number.isSafeInteger\<close>: up to \<open>2\<^bsup>53\<^esup> - 1\<close> in absolute value.\<close>

definition isSafeInteger :: "int \<Rightarrow> bool" where
  "isSafeInteger n = (\<bar>n\<bar> \<le> 2 ^ 53 - 1)"

text \<open>\<^verbatim>\<open>String(x)\<close> of an integer or \<^verbatim>\<open>null\<close>.\<close>

definition String_of :: "int option \<Rightarrow> string" where
  "String_of x =
     (case x of
        None \<Rightarrow> ''null''
      | Some i \<Rightarrow> (if i < 0 then ''-'' @ string_of_nat (nat (- i)) else string_of_nat (nat i)))"

section \<open>Summary fallback: the model of a run from its persisted step statistics\<close>

text \<open>
  Modelled from the spec: the enum \<^verbatim>\<open>StepEventStatus\<close> and the fragment type
  \<^verbatim>\<open>RunFragment\<close> are declared in generated GraphQL type modules that are not
  among the sources. The spec gives the persisted step record as
  \<^verbatim>\<open>{stepKey, status: enum{SUCCESS,FAILURE,SKIPPED,...}, startTime?, endTime?,
  attempts: sequence of {startTime, endTime}, markers: sequence of {startTime, endTime}}\<close>
  and the run record as \<^verbatim>\<open>{startTime?, endTime?}\<close>; \<open>IN_PROGRESS\<close> stands for
  the statuses "anything else". The functions over them are translated from the source.
\<close>

datatype StepEventStatus = SUCCESS | FAILURE | STATUS_SKIPPED | IN_PROGRESS

record timed_stat =
  startTime :: "rat option"
  endTime :: "rat option"

record step_stat =
  ss_stepKey :: string
  ss_status :: "StepEventStatus option"
  ss_startTime :: "rat option"
  ss_endTime :: "rat option"
  ss_attempts :: "timed_stat list"
  ss_markers :: "timed_stat list"

record RunFragment =
  run_startTime :: "rat option"
  run_endTime :: "rat option"
  stepStats :: "step_stat list"

text \<open>
  \<^verbatim>\<open>(ts) => (ts ? Math.floor(ts * 1000) : undefined)\<close>. The product is the one of
  the doubles: the exact product, rounded.
\<close>

definition fromTimestamp :: "rat option \<Rightarrow> int option" where
  "fromTimestamp ts =
     (case ts of
        None \<Rightarrow> None
      | Some t \<Rightarrow> (if t \<noteq> 0 then Some \<lfloor>roundDouble (t * 1000)\<rfloor> else None))"

definition stepStatusToStepState :: "StepEventStatus option \<Rightarrow> IStepState" where
  "stepStatusToStepState status =
     (case status of
        Some SUCCESS \<Rightarrow> SUCCEEDED
      | Some FAILURE \<Rightarrow> FAILED
      | Some STATUS_SKIPPED \<Rightarrow> SKIPPED
      | _ \<Rightarrow> UNKNOWN)"

text \<open>The two \<^verbatim>\<open>map\<close> callbacks, each with the element and its index.\<close>

definition attemptOfStat :: "step_stat \<Rightarrow> timed_stat \<Rightarrow> nat \<Rightarrow> IStepAttempt" where
  "attemptOfStat stepStat attempt idx =
     \<lparr>att_start = fromTimestamp (startTime attempt),
      att_end = fromTimestamp (endTime attempt),
      att_exitState =
        Some (if int idx = int (length (ss_attempts stepStat)) - 1
              then stepStatusToStepState (ss_status stepStat)
              else RETRY_REQUESTED)\<rparr>"

definition markerOfStat :: "timed_stat \<Rightarrow> nat \<Rightarrow> IMarker" where
  "markerOfStat marker idx =
     \<lparr>key = ''marker_'' @ string_of_nat idx,
      marker_start = fromTimestamp (startTime marker),
      marker_end = fromTimestamp (endTime marker)\<rparr>"

definition map_idx :: "('a \<Rightarrow> nat \<Rightarrow> 'b) \<Rightarrow> 'a list \<Rightarrow> 'b list" where
  "map_idx f xs = map (\<lambda>(x, i). f x i) (zip xs [0 ..< length xs])"

definition stepOfStat :: "step_stat \<Rightarrow> IStepMetadata" where
  "stepOfStat stepStat =
     \<lparr>step_state = stepStatusToStepState (ss_status stepStat),
      step_start = fromTimestamp (ss_startTime stepStat),
      step_end = fromTimestamp (ss_endTime stepStat),
      transitions = [],
      attempts = map_idx (attemptOfStat stepStat) (ss_attempts stepStat),
      markers = map_idx markerOfStat (ss_markers stepStat)\<rparr>"

definition addStepStat :: "IRunMetadataDict \<Rightarrow> step_stat \<Rightarrow> IRunMetadataDict" where
  "addStepStat metadata stepStat =
     metadata\<lparr>steps := (steps metadata)(ss_stepKey stepStat \<mapsto> stepOfStat stepStat)\<rparr>"

definition extractMetadataFromRun :: "RunFragment option \<Rightarrow> IRunMetadataDict" where
  "extractMetadataFromRun run =
     (case run of
        None \<Rightarrow> EMPTY_RUN_METADATA
      | Some r \<Rightarrow>
          (let m1 = (if run_startTime r \<noteq> None \<and> run_startTime r \<noteq> Some 0
                     then EMPTY_RUN_METADATA\<lparr>startedPipelineAt := fromTimestamp (run_startTime r)\<rparr>
                     else EMPTY_RUN_METADATA);
               m2 = (if run_endTime r \<noteq> None \<and> run_endTime r \<noteq> Some 0
                     then m1\<lparr>exitedAt := fromTimestamp (run_endTime r)\<rparr>
                     else m1)
           in foldl addStepStat m2 (stepStats r)))"

section \<open>Live-log mode: the reducer over log events\<close>

text \<open>
  Modelled from the spec: the fragment type \<^verbatim>\<open>RunMetadataProviderMessageFragment\<close>
  is generated from the GraphQL fragment at the end of the module; its fields are the
  ones that fragment selects. The type names are the ones the module tests for, with
  \<open>OtherEvent\<close> for every other member of the union. \<open>timestamp\<close> holds the parsed
  integer, \<open>op\<close> the field \<^verbatim>\<open>operationResult.op\<close>.
\<close>

datatype typename =
    RunStartEvent | RunFailureEvent | RunSuccessEvent | RunCanceledEvent
  | EngineEvent | ResourceInitFailureEvent | ResourceInitStartedEvent
  | ResourceInitSuccessEvent | StepWorkerStartedEvent | StepWorkerStartingEvent
  | LogsCapturedEvent
  | ExecutionStepStartEvent | ExecutionStepSuccessEvent | ExecutionStepSkippedEvent
  | ExecutionStepFailureEvent | ExecutionStepUpForRetryEvent | ExecutionStepRestartEvent
  | ObjectStoreOperationEvent
  | OtherEvent

record MessageFragment =
  typename :: typename
  timestamp :: int
  stepKey :: "string option"
  markerStart :: "string option"
  markerEnd :: "string option"
  op :: string
  fileKey :: string
  stepKeys :: "string list option"
  pid :: "int option"
  externalUrl :: "string option"

definition refineMarkerEvent :: "MessageFragment \<Rightarrow> MessageFragment option" where
  "refineMarkerEvent lg =
     (if typename lg = EngineEvent \<or>
         typename lg = ResourceInitFailureEvent \<or>
         typename lg = ResourceInitStartedEvent \<or>
         typename lg = ResourceInitSuccessEvent \<or>
         typename lg = StepWorkerStartedEvent \<or>
         typename lg = StepWorkerStartingEvent
      then Some lg else None)"

text \<open>
  \<^verbatim>\<open>upsertMarker\<close> returns a reference into the array; here it returns the array
  (with the new marker at the front when none was open) and the index of the marker.
\<close>

fun find_open :: "IMarker list \<Rightarrow> string \<Rightarrow> nat option" where
  "find_open [] k = None"
| "find_open (f # fs) k =
     (if key f = k \<and> \<not> truthy_num (marker_end f) then Some 0
      else map_option Suc (find_open fs k))"

definition upsertMarker :: "IMarker list \<Rightarrow> string \<Rightarrow> IMarker list \<times> nat" where
  "upsertMarker markerSet k =
     (case find_open markerSet k of
        Some i \<Rightarrow> (markerSet, i)
      | None \<Rightarrow> (\<lparr>key = k, marker_start = None, marker_end = None\<rparr> # markerSet, 0))"

text \<open>
  The marker part of the callback, written twice in the source (for
  \<^verbatim>\<open>metadata.globalMarkers\<close> and for \<^verbatim>\<open>step.markers\<close>) with the same body.
\<close>

definition applyMarkerEvent :: "IMarker list \<Rightarrow> MessageFragment \<Rightarrow> int \<Rightarrow> IMarker list" where
  "applyMarkerEvent markerSet lg ts =
     (case refineMarkerEvent lg of
        None \<Rightarrow> markerSet
      | Some markerEvent \<Rightarrow>
          (let s1 = (if truthy_str (markerStart markerEvent)
                     then (let (s, i) = upsertMarker markerSet (the (markerStart markerEvent))
                           in s[i := (s ! i)\<lparr>marker_start := Some ts\<rparr>])
                     else markerSet);
               s2 = (if truthy_str (markerEnd markerEvent)
                     then (let (s, i) = upsertMarker s1 (the (markerEnd markerEvent))
                           in s[i := (s ! i)\<lparr>marker_end := Some ts\<rparr>])
                     else s1)
           in s2))"

definition upsertState :: "IStepMetadata \<Rightarrow> int \<Rightarrow> IStepState \<Rightarrow> IStepMetadata" where
  "upsertState step time state =
     step\<lparr>transitions := transitions step @ [\<lparr>t_state = state, t_time = time\<rparr>],
          step_state := state,
          attempts := []\<rparr>"

definition updateLogTimes :: "IRunMetadataDict \<Rightarrow> int \<Rightarrow> IRunMetadataDict" where
  "updateLogTimes metadata ts =
     metadata\<lparr>firstLogAt := (if firstLogAt metadata \<noteq> 0 then min (firstLogAt metadata) ts else ts),
              mostRecentLogAt := max (mostRecentLogAt metadata) ts\<rparr>"

definition isRunTerminal :: "MessageFragment \<Rightarrow> bool" where
  "isRunTerminal lg =
     (typename lg = RunFailureEvent \<or> typename lg = RunSuccessEvent \<or>
      typename lg = RunCanceledEvent)"

definition runEvents :: "IRunMetadataDict \<Rightarrow> MessageFragment \<Rightarrow> int \<Rightarrow> IRunMetadataDict" where
  "runEvents metadata lg ts =
     (let m1 = (if typename lg = RunStartEvent
                then metadata\<lparr>startedPipelineAt := Some ts\<rparr> else metadata)
      in if isRunTerminal lg
         then m1\<lparr>exitedAt := Some ts,
                 steps := (\<lambda>k. map_option
                             (\<lambda>step. if step_state step = RUNNING
                                     then upsertState step ts UNKNOWN else step)
                             (steps m1 k))\<rparr>
         else m1)"

definition globalMarkerEvent :: "IRunMetadataDict \<Rightarrow> MessageFragment \<Rightarrow> int \<Rightarrow> IRunMetadataDict" where
  "globalMarkerEvent metadata lg ts =
     (if \<not> truthy_str (stepKey lg)
      then metadata\<lparr>globalMarkers := applyMarkerEvent (globalMarkers metadata) lg ts\<rparr>
      else metadata)"

definition logsCaptured :: "IRunMetadataDict \<Rightarrow> MessageFragment \<Rightarrow> IRunMetadataDict" where
  "logsCaptured metadata lg =
     (if typename lg = LogsCapturedEvent
      then (let lcs = (case logCaptureSteps metadata of None \<Rightarrow> Map.empty | Some d \<Rightarrow> d)
            in metadata\<lparr>logCaptureSteps :=
                 Some (lcs(fileKey lg \<mapsto>
                   \<lparr>lc_fileKey = fileKey lg,
                    lc_stepKeys = (case stepKeys lg of None \<Rightarrow> [] | Some ks \<Rightarrow> ks),
                    lc_pid = Some (String_of (pid lg)),
                    lc_externalUrl =
                      (if truthy_str (externalUrl lg) then externalUrl lg else None)\<rparr>))\<rparr>)
      else metadata)"

text \<open>
  The step a step-keyed event works on: the stored one, or a new one in PREPARING.
  \<^verbatim>\<open>metadata.steps\<close> is an object literal, so \<^verbatim>\<open>metadata.steps[stepKey]\<close> also finds
  the members that every object inherits from \<^verbatim>\<open>Object.prototype\<close>. At such a key the
  source finds a value that is no step, creates none, and raises a \<^verbatim>\<open>TypeError\<close> in
  \<^verbatim>\<open>upsertState\<close> or in post processing. The map \<open>steps\<close> holds the own properties
  only: the model is the one of the event sequences in which no step key is one of
  \<open>objectPrototypeKeys\<close>, and a property that says that the reducer returns a step
  assumes so.
\<close>

definition objectPrototypeKeys :: "string list" where
  "objectPrototypeKeys =
     [''constructor'', ''__defineGetter__'', ''__defineSetter__'', ''hasOwnProperty'',
      ''__lookupGetter__'', ''__lookupSetter__'', ''isPrototypeOf'', ''propertyIsEnumerable'',
      ''toString'', ''valueOf'', ''__proto__'', ''toLocaleString'']"


definition stepOrNew :: "IRunMetadataDict \<Rightarrow> string \<Rightarrow> int \<Rightarrow> IStepMetadata" where
  "stepOrNew metadata k ts =
     (case steps metadata k of
        Some step \<Rightarrow> step
      | None \<Rightarrow>
          \<lparr>step_state = PREPARING, step_start = None, step_end = None,
           transitions = [\<lparr>t_state = PREPARING, t_time = ts\<rparr>],
           attempts = [], markers = []\<rparr>)"

text \<open>\<^verbatim>\<open>step.end = Math.max(timestamp, step.end || 0)\<close>.\<close>

definition maxEnd :: "int \<Rightarrow> int option \<Rightarrow> int" where
  "maxEnd ts e = max ts (if truthy_num e then the e else 0)"

text \<open>
  The chain of tests on the type name. \<open>None\<close> is the early \<^verbatim>\<open>return\<close> of the
  callback for a \<^verbatim>\<open>CP_OBJECT\<close> operation, which skips the store into
  \<^verbatim>\<open>metadata.steps\<close>. The sum \<^verbatim>\<open>timestamp + 1\<close> of the retry branch is a sum of
  doubles.
\<close>

definition stepTransition :: "IStepMetadata \<Rightarrow> MessageFragment \<Rightarrow> int \<Rightarrow> IStepMetadata option" where
  "stepTransition step lg ts =
     (if typename lg = ExecutionStepStartEvent
      then Some ((upsertState step ts RUNNING)\<lparr>step_start := Some ts\<rparr>)
      else if typename lg = ExecutionStepSuccessEvent
      then Some ((upsertState step ts SUCCEEDED)\<lparr>step_end := Some (maxEnd ts (step_end step))\<rparr>)
      else if typename lg = ExecutionStepSkippedEvent
      then Some (upsertState step ts SKIPPED)
      else if typename lg = ExecutionStepFailureEvent
      then Some ((upsertState step ts FAILED)\<lparr>step_end := Some (maxEnd ts (step_end step))\<rparr>)
      else if typename lg = ExecutionStepUpForRetryEvent
      then Some (upsertState (upsertState step ts RETRY_REQUESTED) (addDouble ts 1) PREPARING)
      else if typename lg = ExecutionStepRestartEvent
      then Some (upsertState step ts RUNNING)
      else if typename lg = ObjectStoreOperationEvent
      then (if op lg = ''CP_OBJECT'' then None else Some step)
      else Some step)"

text \<open>
  The step part of the callback. The marker update mutates the step object before the
  type-name chain runs; an object-store event is no marker event, so the early return
  never follows a mutation and returning the model unchanged is what the source does.
\<close>

definition stepEvent :: "IRunMetadataDict \<Rightarrow> MessageFragment \<Rightarrow> int \<Rightarrow> IRunMetadataDict" where
  "stepEvent metadata lg ts =
     (if truthy_str (stepKey lg)
      then (let k = the (stepKey lg);
                step0 = stepOrNew metadata k ts;
                step1 = step0\<lparr>markers := applyMarkerEvent (markers step0) lg ts\<rparr>
            in case stepTransition step1 lg ts of
                 None \<Rightarrow> metadata
               | Some step \<Rightarrow> metadata\<lparr>steps := (steps metadata)(k \<mapsto> step)\<rparr>)
      else metadata)"

text \<open>The body of \<^verbatim>\<open>logs.forEach\<close>.\<close>

definition processLog :: "IRunMetadataDict \<Rightarrow> MessageFragment \<Rightarrow> IRunMetadataDict" where
  "processLog metadata lg =
     (let ts = timestamp lg;
          m1 = updateLogTimes metadata ts;
          m2 = runEvents m1 lg ts;
          m3 = globalMarkerEvent m2 lg ts;
          m4 = logsCaptured m3 lg
      in stepEvent m4 lg ts)"

definition reduceLogs :: "MessageFragment list \<Rightarrow> IRunMetadataDict" where
  "reduceLogs logs = foldl processLog EMPTY_RUN_METADATA logs"

subsection \<open>Post processing: sorted transitions and attempts\<close>

text \<open>
  The loop over the sorted transitions keeps \<^verbatim>\<open>attempt\<close>, a reference to an
  object that was pushed onto \<^verbatim>\<open>step.attempts\<close>, and writes through it. The
  reference is the index of that object in the list; \<open>None\<close> is \<^verbatim>\<open>null\<close>.
\<close>

definition attemptStep ::
  "IStepAttempt list \<times> nat option \<Rightarrow> transition \<Rightarrow> IStepAttempt list \<times> nat option" where
  "attemptStep st t =
     (let (atts, attempt) = st;
          (atts1, attempt1) =
            (if (attempt = None \<or> truthy_num (att_end (atts ! the attempt))) \<and> t_state t = RUNNING
             then (atts @ [\<lparr>att_start = Some (t_time t), att_end = None, att_exitState = None\<rparr>],
                   Some (length atts))
             else (atts, attempt))
      in if attempt1 \<noteq> None \<and> t_state t \<in> set BOX_EXIT_STATES
         then (atts1[the attempt1 :=
                 (atts1 ! the attempt1)\<lparr>att_end := Some (t_time t),
                                         att_exitState := Some (t_state t)\<rparr>],
               attempt1)
         else (atts1, attempt1))"

definition buildAttempts :: "IStepAttempt list \<Rightarrow> transition list \<Rightarrow> IStepAttempt list" where
  "buildAttempts atts ts = fst (foldl attemptStep (atts, None) ts)"

text \<open>
  \<^verbatim>\<open>step.transitions.sort((a, b) => a.time - b.time)\<close>: the sort of the language
  is stable, as is \<open>sort_key\<close>.
\<close>

definition postProcessStep :: "IStepMetadata \<Rightarrow> IStepMetadata" where
  "postProcessStep step =
     (let sorted_ts = sort_key t_time (transitions step)
      in step\<lparr>transitions := sorted_ts, attempts := buildAttempts (attempts step) sorted_ts\<rparr>)"

definition postProcess :: "IRunMetadataDict \<Rightarrow> IRunMetadataDict" where
  "postProcess metadata =
     metadata\<lparr>steps := (\<lambda>k. map_option postProcessStep (steps metadata k))\<rparr>"

definition extractMetadataFromLogs :: "MessageFragment list \<Rightarrow> IRunMetadataDict" where
  "extractMetadataFromLogs logs = postProcess (reduceLogs logs)"

text \<open>An event of the given type, time and step key, every other field empty.\<close>

definition mkLog :: "typename \<Rightarrow> int \<Rightarrow> string option \<Rightarrow> MessageFragment" where
  "mkLog ty ts k =
     \<lparr>typename = ty, timestamp = ts, stepKey = k, markerStart = None, markerEnd = None,
      op = [], fileKey = [], stepKeys = None, pid = None, externalUrl = None\<rparr>"

subsection \<open>Notions used to state the properties\<close>

text \<open>
  What holds of every step of the model while the events are read: it has a transition,
  its state is the state of the transition that was appended last, and it has no attempts.
\<close>

definition stepInv :: "IStepMetadata \<Rightarrow> bool" where
  "stepInv step =
     (transitions step \<noteq> [] \<and> step_state step = t_state (last (transitions step)) \<and>
      attempts step = [])"

text \<open>
  How a step can change while events with timestamps after \<open>T\<close> are read: transitions are
  appended, one of them at least at a time after \<open>T\<close>, and as long as none is appended the
  state, start, end and attempts stay as they are (the markers may change).
\<close>

definition stepExt :: "int \<Rightarrow> IStepMetadata \<Rightarrow> IStepMetadata \<Rightarrow> bool" where
  "stepExt T s s' =
     (\<exists>new. transitions s' = transitions s @ new \<and>
        (new \<noteq> [] \<longrightarrow> (\<exists>t \<in> set new. T < t_time t)) \<and>
        (new = [] \<longrightarrow> step_state s' = step_state s \<and> step_start s' = step_start s \<and>
           step_end s' = step_end s \<and> attempts s' = attempts s))"

text \<open>
  An event stores the step with key \<open>k\<close> when it carries that key and does not take the
  early return of a \<open>CP_OBJECT\<close> operation; the first such event creates the step.
\<close>

definition storesStep :: "string \<Rightarrow> MessageFragment \<Rightarrow> bool" where
  "storesStep k lg =
     (truthy_str (stepKey lg) \<and> the (stepKey lg) = k \<and>
      \<not> (typename lg = ObjectStoreOperationEvent \<and> op lg = ''CP_OBJECT''))"


text \<open>
  What holds of the attempt scan of post processing, which starts from no attempts: the
  reference \<^verbatim>\<open>attempt\<close> is to the attempt that was pushed last.
\<close>

definition scanInv :: "IStepAttempt list \<times> nat option \<Rightarrow> bool" where
  "scanInv st = (case snd st of None \<Rightarrow> fst st = [] | Some j \<Rightarrow> Suc j = length (fst st))"



subsection \<open>Example inputs\<close>

definition example_stat :: step_stat where
  "example_stat =
     \<lparr>ss_stepKey = ''a'', ss_status = Some FAILURE, ss_startTime = Some (3 / 2),
      ss_endTime = Some 0,
      ss_attempts = [\<lparr>startTime = Some 1, endTime = Some 2\<rparr>,
                     \<lparr>startTime = Some 3, endTime = Some (7 / 2)\<rparr>],
      ss_markers = [\<lparr>startTime = Some 1, endTime = None\<rparr>]\<rparr>"

definition example_run :: RunFragment where
  "example_run =
     \<lparr>run_startTime = Some (1 / 2), run_endTime = None, stepStats = [example_stat]\<rparr>"

definition logs_start_success :: "MessageFragment list" where
  "logs_start_success =
     [mkLog ExecutionStepStartEvent 0 (Some ''stepA''),
      mkLog ExecutionStepSuccessEvent 10 (Some ''stepA'')]"

definition logs_fail_then_succeed :: "MessageFragment list" where
  "logs_fail_then_succeed =
     [mkLog ExecutionStepStartEvent 1 (Some ''stepA''),
      mkLog ExecutionStepFailureEvent 5 (Some ''stepA''),
      mkLog ExecutionStepSuccessEvent 9 (Some ''stepA'')]"

definition logs_with_cache_copy :: "MessageFragment list" where
  "logs_with_cache_copy =
     [mkLog ExecutionStepStartEvent 20 (Some ''y''),
      (mkLog ObjectStoreOperationEvent 10 (Some ''y''))\<lparr>op := ''CP_OBJECT''\<rparr>,
      mkLog ExecutionStepSuccessEvent 30 (Some ''y'')]"

definition logs_success_first :: "MessageFragment list" where
  "logs_success_first =
     [mkLog ExecutionStepSuccessEvent 10 (Some ''stepA''),
      mkLog ExecutionStepStartEvent 0 (Some ''stepA'')]"

definition logs_late_success :: "MessageFragment list" where
  "logs_late_success = [mkLog ExecutionStepSuccessEvent 3 (Some ''stepA'')]"

definition logs_start_at_5 :: "MessageFragment list" where
  "logs_start_at_5 = [mkLog ExecutionStepStartEvent 5 (Some ''stepA'')]"

definition logs_late_run_failure :: "MessageFragment list" where
  "logs_late_run_failure = [mkLog RunFailureEvent 3 None]"

definition logs_other_step_early :: "MessageFragment list" where
  "logs_other_step_early =
     [mkLog ExecutionStepStartEvent 3 (Some ''stepB''), mkLog RunSuccessEvent 30 None]"

definition logs_retry_then_failure :: "MessageFragment list" where
  "logs_retry_then_failure =
     [mkLog ExecutionStepStartEvent 0 (Some ''stepA''),
      mkLog ExecutionStepUpForRetryEvent 5 (Some ''stepA''),
      mkLog ExecutionStepFailureEvent 8 (Some ''stepA'')]"

definition logs_retry_at_limit :: "MessageFragment list" where
  "logs_retry_at_limit =
     [mkLog ExecutionStepStartEvent 0 (Some ''stepA''),
      mkLog ExecutionStepUpForRetryEvent 9007199254740992 (Some ''stepA'')]"

definition logs_retry_at_0 :: "MessageFragment list" where
  "logs_retry_at_0 =
     [mkLog ExecutionStepStartEvent 0 (Some ''stepA''),
      mkLog ExecutionStepUpForRetryEvent 0 (Some ''stepA''),
      mkLog ExecutionStepRestartEvent 3 (Some ''stepA''),
      mkLog ExecutionStepFailureEvent 7 (Some ''stepA'')]"

definition logs_retry_restart :: "MessageFragment list" where
  "logs_retry_restart =
     [mkLog ExecutionStepStartEvent 0 (Some ''stepA''),
      mkLog ExecutionStepUpForRetryEvent 5 (Some ''stepA''),
      mkLog ExecutionStepRestartEvent 8 (Some ''stepA''),
      mkLog ExecutionStepFailureEvent 12 (Some ''stepA'')]"





section \<open>Properties of the double arithmetic\<close>

lemmas double_defs =
  roundDouble_def expo_def roundHalfEven_def bitLength.simps addDouble_def Let_def

lemma bitLength_le: "n < 2 ^ k \<Longrightarrow> bitLength n \<le> k"
proof (induction k arbitrary: n)
  case 0
  then show ?case by (simp add: bitLength.simps)
next
  case (Suc k)
  have "n div 2 < 2 ^ k" using Suc.prems by auto
  then have "bitLength (n div 2) \<le> k" by (rule Suc.IH)
  then show ?case by (subst bitLength.simps) simp
qed

lemma expo_le_52:
  assumes "\<bar>x\<bar> < 2 ^ 53"
  shows "expo x \<le> 52"
proof (cases "1 \<le> \<bar>x\<bar>")
  case True
  have "\<lfloor>\<bar>x\<bar>\<rfloor> < 2 ^ 53"
    using assms by (simp add: floor_less_iff)
  then have "nat \<lfloor>\<bar>x\<bar>\<rfloor> < 2 ^ 53"
    by (simp add: nat_less_iff)
  then have "bitLength (nat \<lfloor>\<bar>x\<bar>\<rfloor>) \<le> 53" by (rule bitLength_le)
  then show ?thesis using True by (simp add: expo_def)
next
  case False
  then show ?thesis by (simp add: expo_def)
qed

lemma roundHalfEven_ge: "of_int m \<le> z \<Longrightarrow> m \<le> roundHalfEven z"
proof -
  assume "of_int m \<le> z"
  then have "m \<le> \<lfloor>z\<rfloor>" by (simp add: le_floor_iff)
  then show ?thesis by (auto simp: roundHalfEven_def Let_def)
qed

lemma roundHalfEven_le: "z \<le> of_int m \<Longrightarrow> roundHalfEven z \<le> m"
proof -
  assume a: "z \<le> of_int m"
  show ?thesis
  proof (cases "z = of_int m")
    case True
    then show ?thesis by (simp add: roundHalfEven_def Let_def)
  next
    case False
    with a have "z < of_int m" by simp
    then have "\<lfloor>z\<rfloor> < m" by (simp add: floor_less_iff)
    then show ?thesis by (auto simp: roundHalfEven_def Let_def)
  qed
qed

lemma powi_nonpos:
  assumes "p \<le> 0"
  shows "(2::rat) powi p = 1 / 2 ^ nat (- p)"
proof -
  have "p = - int (nat (- p))" using assms by simp
  then have "(2::rat) powi p = 2 powi (- int (nat (- p)))" by (rule arg_cong)
  also have "\<dots> = inverse (2 ^ nat (- p))"
    by (simp only: power_int_minus power_int_of_nat)
  also have "\<dots> = 1 / 2 ^ nat (- p)"
    by (simp only: inverse_eq_divide)
  finally show ?thesis .
qed

text \<open>
  Below \<open>2\<^bsup>53\<^esup>\<close> every integer is a double, so rounding never crosses an integer.
\<close>

lemma roundDouble_bounds:
  assumes "\<bar>x\<bar> < 2 ^ 53"
  shows "of_int m \<le> x \<Longrightarrow> of_int m \<le> roundDouble x"
    and "x \<le> of_int m \<Longrightarrow> roundDouble x \<le> of_int m"
proof -
  define p where "p = max (expo x - 52) (- 1074)"
  define k where "k = nat (- p)"
  have "p \<le> 0" using expo_le_52 [OF assms] by (simp add: p_def)
  then have pw: "(2::rat) powi p = 1 / 2 ^ k"
    unfolding k_def by (rule powi_nonpos)
  have r0: "roundDouble x = of_int (roundHalfEven (x / 2 powi p)) * 2 powi p" if "x \<noteq> 0"
    unfolding roundDouble_def Let_def p_def using that by (rule if_not_P)
  have r: "roundDouble x = of_int (roundHalfEven (x * 2 ^ k)) / 2 ^ k" if "x \<noteq> 0"
    unfolding r0 [OF that] pw by simp
  {
    assume m: "of_int m \<le> x"
    show "of_int m \<le> roundDouble x"
    proof (cases "x = 0")
      case True
      then show ?thesis using m by (simp add: roundDouble_def)
    next
      case False
      have "of_int (m * 2 ^ k) \<le> x * 2 ^ k" using m by simp
      then have "m * 2 ^ k \<le> roundHalfEven (x * 2 ^ k)" by (rule roundHalfEven_ge)
      then have "(of_int (m * 2 ^ k) :: rat) \<le> of_int (roundHalfEven (x * 2 ^ k))"
        by (simp only: of_int_le_iff)
      then have "(of_int m :: rat) * 2 ^ k \<le> of_int (roundHalfEven (x * 2 ^ k))" by simp
      then show ?thesis by (simp add: r [OF False] pos_le_divide_eq)
    qed
  }
  {
    assume m: "x \<le> of_int m"
    show "roundDouble x \<le> of_int m"
    proof (cases "x = 0")
      case True
      then show ?thesis using m by (simp add: roundDouble_def)
    next
      case False
      have "x * 2 ^ k \<le> of_int (m * 2 ^ k)" using m by simp
      then have "roundHalfEven (x * 2 ^ k) \<le> m * 2 ^ k" by (rule roundHalfEven_le)
      then have "(of_int (roundHalfEven (x * 2 ^ k)) :: rat) \<le> of_int (m * 2 ^ k)"
        by (simp only: of_int_le_iff)
      then have "(of_int (roundHalfEven (x * 2 ^ k)) :: rat) \<le> of_int m * 2 ^ k" by simp
      then show ?thesis by (simp add: r [OF False] pos_divide_le_eq)
    qed
  }
qed

lemma floor_roundDouble:
  assumes "\<bar>x\<bar> < 2 ^ 53"
  shows "\<lfloor>x\<rfloor> \<le> \<lfloor>roundDouble x\<rfloor>" and "\<lfloor>roundDouble x\<rfloor> \<le> \<lfloor>x\<rfloor> + 1"
proof -
  have "of_int \<lfloor>x\<rfloor> \<le> roundDouble x"
    using roundDouble_bounds(1) [OF assms, of "\<lfloor>x\<rfloor>"] by simp
  then show "\<lfloor>x\<rfloor> \<le> \<lfloor>roundDouble x\<rfloor>" by (simp add: le_floor_iff)
  have "x \<le> of_int (\<lfloor>x\<rfloor> + 1)" using floor_correct [of x] by simp
  then have "roundDouble x \<le> of_int (\<lfloor>x\<rfloor> + 1)"
    by (rule roundDouble_bounds(2) [OF assms])
  then show "\<lfloor>roundDouble x\<rfloor> \<le> \<lfloor>x\<rfloor> + 1"
    by (metis floor_mono floor_of_int)
qed

lemma roundDouble_int:
  assumes "\<bar>of_int n :: rat\<bar> < 2 ^ 53"
  shows "roundDouble (of_int n) = of_int n"
  using roundDouble_bounds [OF assms, of n] by simp

lemma addDouble_exact:
  assumes "\<bar>a + b\<bar> < 2 ^ 53"
  shows "addDouble a b = a + b"
proof -
  have "\<bar>of_int (a + b) :: rat\<bar> < 2 ^ 53"
    using assms by (metis of_int_abs of_int_less_numeral_power_cancel_iff)
  then show ?thesis by (simp only: addDouble_def roundDouble_int floor_of_int)
qed

lemma addDouble_safe: "isSafeInteger n \<Longrightarrow> addDouble n 1 = n + 1"
proof -
  assume s: "isSafeInteger n"
  show ?thesis
  proof (cases "n + 1 = 2 ^ 53")
    case True
    have "addDouble (2 ^ 53 - 1) 1 = 2 ^ 53"
      by (simp add: double_defs)
    moreover have "n = 2 ^ 53 - 1" using True by simp
    ultimately show ?thesis by simp
  next
    case False
    with s have "\<bar>n + 1\<bar> < 2 ^ 53" by (simp add: isSafeInteger_def)
    then show ?thesis by (rule addDouble_exact)
  qed
qed

lemma fromTimestamp_exact:
  assumes "t \<noteq> 0" and "t * 1000 = of_int n" and "\<bar>n\<bar> < 2 ^ 53"
  shows "fromTimestamp (Some t) = Some n"
proof -
  have "\<bar>of_int n :: rat\<bar> < 2 ^ 53"
    using assms(3) by (metis of_int_abs of_int_less_numeral_power_cancel_iff)
  then have "roundDouble (t * 1000) = of_int n"
    unfolding assms(2) by (rule roundDouble_int)
  then show ?thesis using assms(1) by (simp add: fromTimestamp_def)
qed

section \<open>Properties of the summary fallback\<close>

lemmas reducer_defs =
  extractMetadataFromLogs_def reduceLogs_def processLog_def mkLog_def postProcess_def
  postProcessStep_def stepEvent_def stepTransition_def logsCaptured_def globalMarkerEvent_def
  runEvents_def isRunTerminal_def updateLogTimes_def EMPTY_RUN_METADATA_def stepOrNew_def
  applyMarkerEvent_def refineMarkerEvent_def truthy_str_def truthy_num_def upsertState_def
  maxEnd_def buildAttempts_def attemptStep_def BOX_EXIT_STATES_def addDouble_exact

lemma foldl_addStepStat_other:
  "startedPipelineAt (foldl addStepStat m xs) = startedPipelineAt m"
  "exitedAt (foldl addStepStat m xs) = exitedAt m"
  by (induction xs arbitrary: m) (simp_all add: addStepStat_def)

lemma foldl_addStepStat_absent:
  "k \<notin> ss_stepKey ` set xs \<Longrightarrow> steps (foldl addStepStat m xs) k = steps m k"
  by (induction xs arbitrary: m) (simp_all add: addStepStat_def)

lemma foldl_addStepStat_last:
  assumes "ss_stepKey ss \<notin> ss_stepKey ` set post"
  shows "steps (foldl addStepStat m (pre @ ss # post)) (ss_stepKey ss) = Some (stepOfStat ss)"
  using assms by (simp add: foldl_addStepStat_absent) (simp add: addStepStat_def)

text \<open>
  A record of the run is stored under its step key; a later record with the same key
  would replace it, so the record is taken to be the last one with its key.
\<close>

lemma steps_extractMetadataFromRun:
  assumes "stepStats r = pre @ ss # post" "ss_stepKey ss \<notin> ss_stepKey ` set post"
  shows "steps (extractMetadataFromRun (Some r)) (ss_stepKey ss) = Some (stepOfStat ss)"
  using assms
  by (simp add: extractMetadataFromRun_def Let_def foldl_addStepStat_last del: foldl_append)

lemma length_map_idx [simp]: "length (map_idx f xs) = length xs"
  by (simp add: map_idx_def)

lemma nth_map_idx [simp]: "i < length xs \<Longrightarrow> map_idx f xs ! i = f (xs ! i) i"
  by (simp add: map_idx_def)

text \<open>
  C7. For a run with persisted step statistics, the summary fallback gives the step of
  each record (the last one stored under its key) the state that the table assigns to the
  record's status: SUCCESS to SUCCEEDED, FAILURE to FAILED, SKIPPED to SKIPPED, anything
  else (also no status) to UNKNOWN. The step has one attempt per attempt of the record, in
  the same order, with the converted start and end; the last attempt's exit state is the
  step's state and every earlier attempt's exit state is RETRY_REQUESTED.
\<close>

theorem C7_summary_fallback:
  assumes "stepStats r = pre @ ss # post" and "ss_stepKey ss \<notin> ss_stepKey ` set post"
  shows "\<exists>step. steps (extractMetadataFromRun (Some r)) (ss_stepKey ss) = Some step \<and>
           (ss_status ss = Some SUCCESS \<longrightarrow> step_state step = SUCCEEDED) \<and>
           (ss_status ss = Some FAILURE \<longrightarrow> step_state step = FAILED) \<and>
           (ss_status ss = Some STATUS_SKIPPED \<longrightarrow> step_state step = SKIPPED) \<and>
           (ss_status ss \<notin> {Some SUCCESS, Some FAILURE, Some STATUS_SKIPPED} \<longrightarrow>
              step_state step = UNKNOWN) \<and>
           length (attempts step) = length (ss_attempts ss) \<and>
           (\<forall>i < length (ss_attempts ss).
              att_start (attempts step ! i) = fromTimestamp (startTime (ss_attempts ss ! i)) \<and>
              att_end (attempts step ! i) = fromTimestamp (endTime (ss_attempts ss ! i)) \<and>
              att_exitState (attempts step ! i) =
                Some (if Suc i = length (ss_attempts ss) then step_state step
                      else RETRY_REQUESTED))"
proof -
  have tbl: "ss_status ss \<notin> {Some SUCCESS, Some FAILURE, Some STATUS_SKIPPED} \<Longrightarrow>
      stepStatusToStepState (ss_status ss) = UNKNOWN"
    by (cases "ss_status ss"; cases "the (ss_status ss)")
       (auto simp: stepStatusToStepState_def)
  have idx: "\<And>i. i < length (ss_attempts ss) \<Longrightarrow>
      (int i = int (length (ss_attempts ss)) - 1) = (Suc i = length (ss_attempts ss))"
    by auto
  show ?thesis
    using steps_extractMetadataFromRun [OF assms] tbl
    by (auto simp: stepOfStat_def attemptOfStat_def stepStatusToStepState_def idx)
qed

theorem C7_summary_fallback_witness:
  "stepStats example_run = [] @ example_stat # [] \<and>
   ss_stepKey example_stat \<notin> ss_stepKey ` set [] \<and>
   (\<exists>step. steps (extractMetadataFromRun (Some example_run)) ''a'' = Some step \<and>
      step_state step = FAILED \<and> length (attempts step) = 2 \<and>
      att_exitState (attempts step ! 0) = Some RETRY_REQUESTED \<and>
      att_exitState (attempts step ! 1) = Some FAILED \<and>
      att_start (attempts step ! 1) = Some 3000 \<and> att_end (attempts step ! 1) = Some 3500)"
proof -
  have h1: "stepStats example_run = [] @ example_stat # []"
    by (simp add: example_run_def)
  have h2: "ss_stepKey example_stat \<notin> ss_stepKey ` set []"
    by simp
  have k: "ss_stepKey example_stat = ''a''" "ss_status example_stat = Some FAILURE"
     "length (ss_attempts example_stat) = 2"
     "ss_attempts example_stat ! 1 = \<lparr>startTime = Some 3, endTime = Some (7 / 2)\<rparr>"
    by (simp_all add: example_stat_def)
  have f: "fromTimestamp (Some 3) = Some 3000" "fromTimestamp (Some (7 / 2)) = Some 3500"
    by (rule fromTimestamp_exact; simp)+
  from C7_summary_fallback [OF h1 h2] obtain step where
    s: "steps (extractMetadataFromRun (Some example_run)) ''a'' = Some step"
      "step_state step = FAILED" "length (attempts step) = 2"
      "\<forall>i < 2.
         att_start (attempts step ! i) = fromTimestamp (startTime (ss_attempts example_stat ! i)) \<and>
         att_end (attempts step ! i) = fromTimestamp (endTime (ss_attempts example_stat ! i)) \<and>
         att_exitState (attempts step ! i) =
           Some (if Suc i = 2 then step_state step else RETRY_REQUESTED)"
    unfolding k by auto
  from s(4) have "att_exitState (attempts step ! 0) = Some RETRY_REQUESTED"
    "att_exitState (attempts step ! 1) = Some FAILED"
    "att_start (attempts step ! 1) = Some 3000" "att_end (attempts step ! 1) = Some 3500"
    using s(2) k(4) f by auto
  with s h1 h2 show ?thesis by blast
qed

text \<open>
  C10. The claim gives the conversion as \<open>\<lfloor>t * 1000\<rfloor>\<close>. The code multiplies doubles, so the
  product is rounded before the floor is taken: for the double nearest to 0.3 the exact
  product is just below 300 and its floor is 299, and the code gives 300.
\<close>

theorem C10_fromTimestamp_counterexample:
  "fromTimestamp (Some (5404319552844595 / 18014398509481984)) = Some 300 \<and>
   \<lfloor>(5404319552844595 / 18014398509481984 :: rat) * 1000\<rfloor> = 299"
proof (rule conjI)
  show "fromTimestamp (Some (5404319552844595 / 18014398509481984)) = Some 300"
    by code_simp
  show "\<lfloor>(5404319552844595 / 18014398509481984 :: rat) * 1000\<rfloor> = 299"
    by (rule floor_unique) simp_all
qed

text \<open>
  C10, as the code has it. In the summary fallback a persisted time \<open>t\<close> becomes the floor
  of the double product \<open>t * 1000\<close>. As long as the product is below \<open>2\<^bsup>53\<^esup>\<close> in absolute
  value this is \<open>\<lfloor>t * 1000\<rfloor>\<close>, or one more when the product rounds to that integer, and it
  is \<open>t * 1000\<close> itself when that is an integer; a time that is 0 or missing becomes absent, never 0. The same conversion gives the run's start and exit times, each step's start and
  end, and the start and end of every attempt and of every marker of the step.
\<close>

theorem C10_fromTimestamp:
  assumes "stepStats r = pre @ ss # post" and "ss_stepKey ss \<notin> ss_stepKey ` set post"
  shows "fromTimestamp None = None \<and> fromTimestamp (Some 0) = None \<and>
         (\<forall>t. t \<noteq> 0 \<longrightarrow> fromTimestamp (Some t) = Some \<lfloor>roundDouble (t * 1000)\<rfloor>) \<and>
         (\<forall>t. t \<noteq> 0 \<and> \<bar>t * 1000\<bar> < 2 ^ 53 \<longrightarrow>
            (\<exists>ms. fromTimestamp (Some t) = Some ms \<and> \<lfloor>t * 1000\<rfloor> \<le> ms \<and> ms \<le> \<lfloor>t * 1000\<rfloor> + 1 \<and>
               (ms = \<lfloor>t * 1000\<rfloor> + 1 \<longrightarrow> roundDouble (t * 1000) = of_int ms))) \<and>
         (\<forall>t n. t \<noteq> 0 \<and> t * 1000 = of_int n \<and> \<bar>n\<bar> < 2 ^ 53 \<longrightarrow>
            fromTimestamp (Some t) = Some n) \<and>
         startedPipelineAt (extractMetadataFromRun (Some r)) = fromTimestamp (run_startTime r) \<and>
         exitedAt (extractMetadataFromRun (Some r)) = fromTimestamp (run_endTime r) \<and>
         (\<exists>step. steps (extractMetadataFromRun (Some r)) (ss_stepKey ss) = Some step \<and>
            step_start step = fromTimestamp (ss_startTime ss) \<and>
            step_end step = fromTimestamp (ss_endTime ss) \<and>
            map att_start (attempts step) = map (fromTimestamp \<circ> startTime) (ss_attempts ss) \<and>
            map att_end (attempts step) = map (fromTimestamp \<circ> endTime) (ss_attempts ss) \<and>
            map marker_start (markers step) = map (fromTimestamp \<circ> startTime) (ss_markers ss) \<and>
            map marker_end (markers step) = map (fromTimestamp \<circ> endTime) (ss_markers ss))"
proof -
  have a: "fromTimestamp None = None \<and> fromTimestamp (Some 0) = None \<and>
         (\<forall>t. t \<noteq> 0 \<longrightarrow> fromTimestamp (Some t) = Some \<lfloor>roundDouble (t * 1000)\<rfloor>)"
    by (simp add: fromTimestamp_def)
  have a': "\<forall>t. t \<noteq> 0 \<and> \<bar>t * 1000\<bar> < 2 ^ 53 \<longrightarrow>
            (\<exists>ms. fromTimestamp (Some t) = Some ms \<and> \<lfloor>t * 1000\<rfloor> \<le> ms \<and> ms \<le> \<lfloor>t * 1000\<rfloor> + 1 \<and>
               (ms = \<lfloor>t * 1000\<rfloor> + 1 \<longrightarrow> roundDouble (t * 1000) = of_int ms))"
  proof (intro allI impI)
    fix t :: rat
    assume h: "t \<noteq> 0 \<and> \<bar>t * 1000\<bar> < 2 ^ 53"
    let ?x = "t * 1000"
    have bd: "\<bar>?x\<bar> < 2 ^ 53" using h by simp
    have up: "roundDouble ?x \<le> of_int (\<lfloor>?x\<rfloor> + 1)"
    proof (rule roundDouble_bounds(2) [OF bd])
      show "?x \<le> of_int (\<lfloor>?x\<rfloor> + 1)" using floor_correct [of ?x] by simp
    qed
    have "roundDouble ?x = of_int \<lfloor>roundDouble ?x\<rfloor>" if "\<lfloor>roundDouble ?x\<rfloor> = \<lfloor>?x\<rfloor> + 1"
    proof -
      have "of_int \<lfloor>roundDouble ?x\<rfloor> \<le> roundDouble ?x" by (rule of_int_floor_le)
      moreover have "roundDouble ?x \<le> of_int \<lfloor>roundDouble ?x\<rfloor>"
        using up that by simp
      ultimately show ?thesis by (rule order_antisym [symmetric])
    qed
    then show "\<exists>ms. fromTimestamp (Some t) = Some ms \<and> \<lfloor>?x\<rfloor> \<le> ms \<and> ms \<le> \<lfloor>?x\<rfloor> + 1 \<and>
        (ms = \<lfloor>?x\<rfloor> + 1 \<longrightarrow> roundDouble ?x = of_int ms)"
      using h floor_roundDouble [OF bd] by (simp add: fromTimestamp_def)
  qed
  have a'': "\<forall>t n. t \<noteq> 0 \<and> t * 1000 = of_int n \<and> \<bar>n\<bar> < 2 ^ 53 \<longrightarrow>
            fromTimestamp (Some t) = Some n"
    using fromTimestamp_exact by blast
  have b: "startedPipelineAt (extractMetadataFromRun (Some r)) = fromTimestamp (run_startTime r)"
    by (cases "run_startTime r")
       (simp_all add: extractMetadataFromRun_def Let_def foldl_addStepStat_other
        EMPTY_RUN_METADATA_def fromTimestamp_def)
  have c: "exitedAt (extractMetadataFromRun (Some r)) = fromTimestamp (run_endTime r)"
    by (cases "run_endTime r")
       (simp_all add: extractMetadataFromRun_def Let_def foldl_addStepStat_other
        EMPTY_RUN_METADATA_def fromTimestamp_def)
  have d: "map att_start (attempts (stepOfStat ss)) = map (fromTimestamp \<circ> startTime) (ss_attempts ss)"
    "map att_end (attempts (stepOfStat ss)) = map (fromTimestamp \<circ> endTime) (ss_attempts ss)"
    "map marker_start (markers (stepOfStat ss)) = map (fromTimestamp \<circ> startTime) (ss_markers ss)"
    "map marker_end (markers (stepOfStat ss)) = map (fromTimestamp \<circ> endTime) (ss_markers ss)"
    by (auto simp: stepOfStat_def list_eq_iff_nth_eq attemptOfStat_def markerOfStat_def)
  have e: "step_start (stepOfStat ss) = fromTimestamp (ss_startTime ss)"
     "step_end (stepOfStat ss) = fromTimestamp (ss_endTime ss)"
    by (simp_all add: stepOfStat_def)
  show ?thesis
    using a a' a'' b c d e steps_extractMetadataFromRun [OF assms] by simp
qed

theorem C10_fromTimestamp_witness:
  "stepStats example_run = [] @ example_stat # [] \<and>
   ss_stepKey example_stat \<notin> ss_stepKey ` set [] \<and>
   (3 / 2 :: rat) \<noteq> 0 \<and> \<bar>(3 / 2 :: rat) * 1000\<bar> < 2 ^ 53 \<and>
   fromTimestamp (Some (3 / 2)) = Some 1500 \<and>
   startedPipelineAt (extractMetadataFromRun (Some example_run)) = Some 500 \<and>
   exitedAt (extractMetadataFromRun (Some example_run)) = None \<and>
   (\<exists>step. steps (extractMetadataFromRun (Some example_run)) ''a'' = Some step \<and>
      step_start step = Some 1500 \<and> step_end step = None \<and>
      map att_start (attempts step) = [Some 1000, Some 3000] \<and>
      map att_end (attempts step) = [Some 2000, Some 3500] \<and>
      map marker_start (markers step) = [Some 1000] \<and>
      map marker_end (markers step) = [None])"
proof -
  have h1: "stepStats example_run = [] @ example_stat # []"
    by (simp add: example_run_def)
  have h2: "ss_stepKey example_stat \<notin> ss_stepKey ` set []"
    by simp
  have h3: "(3 / 2 :: rat) \<noteq> 0" "\<bar>(3 / 2 :: rat) * 1000\<bar> < 2 ^ 53"
    by simp_all
  note inst = C10_fromTimestamp [OF h1 h2]
  from inst have br: "\<And>t. t \<noteq> 0 \<and> \<bar>t * 1000\<bar> < 2 ^ 53 \<Longrightarrow>
      \<exists>ms. fromTimestamp (Some t) = Some ms \<and> \<lfloor>t * 1000\<rfloor> \<le> ms \<and> ms \<le> \<lfloor>t * 1000\<rfloor> + 1 \<and>
        (ms = \<lfloor>t * 1000\<rfloor> + 1 \<longrightarrow> roundDouble (t * 1000) = of_int ms)"
    and z: "fromTimestamp None = None" "fromTimestamp (Some 0) = None"
    by blast+
  from inst have ex: "\<And>t n. t \<noteq> 0 \<Longrightarrow> t * 1000 = of_int n \<Longrightarrow> \<bar>n\<bar> < 2 ^ 53 \<Longrightarrow>
      fromTimestamp (Some t) = Some n"
    by blast
  have v: "fromTimestamp (Some (3 / 2)) = Some 1500" "fromTimestamp (Some (1 / 2)) = Some 500"
    "fromTimestamp (Some 1) = Some 1000" "fromTimestamp (Some 2) = Some 2000"
    "fromTimestamp (Some 3) = Some 3000" "fromTimestamp (Some (7 / 2)) = Some 3500"
    by (rule ex; simp)+
  from br [of "3 / 2"] h3 have bd: "\<exists>ms. fromTimestamp (Some (3 / 2)) = Some ms \<and>
      \<lfloor>(3 / 2 :: rat) * 1000\<rfloor> \<le> ms \<and> ms \<le> \<lfloor>(3 / 2 :: rat) * 1000\<rfloor> + 1"
    by blast
  show ?thesis
    using inst h1 h2 h3 v z by (simp add: example_run_def example_stat_def)
qed

section \<open>The start and success scenario\<close>

text \<open>
  C4. For the events start(stepA) at 0 and success(stepA) at 10 the claim gives the
  transitions RUNNING at 0 and SUCCEEDED at 10 only. The step is created on its first
  event in state PREPARING with a transition at that event's time, so the list starts
  with PREPARING at 0.
\<close>

theorem C4_scenario_counterexample:
  "map_option transitions (steps (extractMetadataFromLogs logs_start_success) ''stepA'') \<noteq>
     Some [\<lparr>t_state = RUNNING, t_time = 0\<rparr>, \<lparr>t_state = SUCCEEDED, t_time = 10\<rparr>]"
  by (simp add: logs_start_success_def reducer_defs)

text \<open>
  C4, as the code has it: the step ends in state SUCCEEDED with start 0 and end 10, the
  transitions PREPARING at 0, RUNNING at 0, SUCCEEDED at 10, and the single attempt from
  0 to 10 with exit state SUCCEEDED.
\<close>

theorem C4_scenario:
  "steps (extractMetadataFromLogs logs_start_success) ''stepA'' =
     Some \<lparr>step_state = SUCCEEDED, step_start = Some 0, step_end = Some 10,
           transitions = [\<lparr>t_state = PREPARING, t_time = 0\<rparr>,
                          \<lparr>t_state = RUNNING, t_time = 0\<rparr>,
                          \<lparr>t_state = SUCCEEDED, t_time = 10\<rparr>],
           attempts = [\<lparr>att_start = Some 0, att_end = Some 10,
                        att_exitState = Some SUCCEEDED\<rparr>],
           markers = []\<rparr>"
  by (simp add: logs_start_success_def reducer_defs)

section \<open>Properties of the attempt derivation\<close>

lemma attemptStep_exit:
  "t_state t \<in> set BOX_EXIT_STATES \<Longrightarrow>
   attemptStep (atts, Some i) t =
     (atts[i := (atts ! i)\<lparr>att_end := Some (t_time t), att_exitState := Some (t_state t)\<rparr>],
      Some i)"
  by (auto simp: attemptStep_def BOX_EXIT_STATES_def)

lemma attemptStep_idle:
  "t_state t \<noteq> RUNNING \<Longrightarrow> attemptStep (atts, None) t = (atts, None)"
  by (simp add: attemptStep_def)

lemma foldl_attemptStep_idle:
  "\<forall>t \<in> set ts. t_state t \<noteq> RUNNING \<Longrightarrow> foldl attemptStep (atts, None) ts = (atts, None)"
  by (induction ts) (simp_all add: attemptStep_idle)

lemma attemptStep_open:
  "t_state t = RUNNING \<Longrightarrow>
   attemptStep (atts, None) t =
     (atts @ [\<lparr>att_start = Some (t_time t), att_end = None, att_exitState = None\<rparr>],
      Some (length atts))"
  by (simp add: attemptStep_def BOX_EXIT_STATES_def)

lemma attemptStep_pushes:
  "truthy_num (att_end (atts ! i)) \<Longrightarrow> t_state t = RUNNING \<Longrightarrow>
   attemptStep (atts, Some i) t =
     (atts @ [\<lparr>att_start = Some (t_time t), att_end = None, att_exitState = None\<rparr>],
      Some (length atts))"
  by (simp add: attemptStep_def BOX_EXIT_STATES_def)

lemma attemptStep_skips:
  "t_state t \<noteq> RUNNING \<Longrightarrow> t_state t \<notin> set BOX_EXIT_STATES \<Longrightarrow>
   attemptStep (atts, Some i) t = (atts, Some i)"
  by (simp add: attemptStep_def)

lemma attemptStep_cases:
  "attemptStep (atts, Some j) t = (atts, Some j) \<or>
   attemptStep (atts, Some j) t =
     (atts[j := (atts ! j)\<lparr>att_end := Some (t_time t), att_exitState := Some (t_state t)\<rparr>],
      Some j) \<or>
   attemptStep (atts, Some j) t =
     (atts @ [\<lparr>att_start = Some (t_time t), att_end = None, att_exitState = None\<rparr>],
      Some (length atts))"
  by (simp add: attemptStep_def BOX_EXIT_STATES_def)

lemma scanInv_attemptStep:
  assumes "scanInv st"
  shows "scanInv (attemptStep st t)"
proof (cases st)
  case (Pair atts ptr)
  show ?thesis
  proof (cases ptr)
    case None
    with Pair assms have e: "st = ([], None)" by (simp add: scanInv_def)
    show ?thesis
    proof (cases "t_state t = RUNNING")
      case True
      then show ?thesis unfolding e by (simp add: attemptStep_open scanInv_def)
    next
      case False
      then show ?thesis unfolding e by (simp add: attemptStep_idle scanInv_def)
    qed
  next
    case (Some j)
    with Pair assms have l: "Suc j = length atts" by (simp add: scanInv_def)
    from attemptStep_cases [of atts j t] show ?thesis
      unfolding Pair Some using l by (auto simp: scanInv_def)
  qed
qed

lemma scanInv_foldl: "scanInv st \<Longrightarrow> scanInv (foldl attemptStep st ts)"
  by (induction ts arbitrary: st) (simp_all add: scanInv_attemptStep)

text \<open>An attempt that is no longer the one referred to is not written again.\<close>

lemma foldl_attemptStep_frame:
  assumes "Suc j = length atts" and "i < j"
  shows "i < length (fst (foldl attemptStep (atts, Some j) ts)) \<and>
         fst (foldl attemptStep (atts, Some j) ts) ! i = atts ! i"
  using assms
proof (induction ts arbitrary: atts j)
  case Nil
  then show ?case by simp
next
  case (Cons t ts)
  let ?w = "atts[j := (atts ! j)\<lparr>att_end := Some (t_time t), att_exitState := Some (t_state t)\<rparr>]"
  let ?p = "atts @ [\<lparr>att_start = Some (t_time t), att_end = None, att_exitState = None\<rparr>]"
  from attemptStep_cases [of atts j t]
  consider (kept) "attemptStep (atts, Some j) t = (atts, Some j)"
    | (written) "attemptStep (atts, Some j) t = (?w, Some j)"
    | (pushed) "attemptStep (atts, Some j) t = (?p, Some (length atts))"
    by blast
  then show ?case
  proof cases
    case kept
    with Cons.IH [OF Cons.prems] show ?thesis by simp
  next
    case written
    have "Suc j = length ?w" using Cons.prems(1) by simp
    from Cons.IH [OF this Cons.prems(2)] written Cons.prems(2) show ?thesis by simp
  next
    case pushed
    have "Suc (length atts) = length ?p" by simp
    moreover have "i < length atts" using Cons.prems by simp
    ultimately have "i < length (fst (foldl attemptStep (?p, Some (length atts)) ts)) \<and>
        fst (foldl attemptStep (?p, Some (length atts)) ts) ! i = ?p ! i"
      by (rule Cons.IH)
    moreover have "?p ! i = atts ! i"
      using \<open>i < length atts\<close> by (simp add: nth_append)
    ultimately show ?thesis using pushed by simp
  qed
qed

text \<open>
  An attempt with an end stays as it is when no exit transition comes before the next
  RUNNING one.
\<close>

lemma foldl_attemptStep_closed:
  assumes "Suc i = length atts" and "truthy_num (att_end (atts ! i))"
    and "\<forall>t \<in> set (takeWhile (\<lambda>t. t_state t \<noteq> RUNNING) ys). t_state t \<notin> set BOX_EXIT_STATES"
  shows "i < length (fst (foldl attemptStep (atts, Some i) ys)) \<and>
         fst (foldl attemptStep (atts, Some i) ys) ! i = atts ! i"
  using assms(3)
proof (induction ys)
  case Nil
  then show ?case using assms(1) by simp
next
  case (Cons y ys)
  show ?case
  proof (cases "t_state y = RUNNING")
    case True
    let ?p = "atts @ [\<lparr>att_start = Some (t_time y), att_end = None, att_exitState = None\<rparr>]"
    have st: "attemptStep (atts, Some i) y = (?p, Some (length atts))"
      using assms(2) True by (rule attemptStep_pushes)
    have "Suc (length atts) = length ?p" by simp
    moreover have "i < length atts" using assms(1) by simp
    ultimately have "i < length (fst (foldl attemptStep (?p, Some (length atts)) ys)) \<and>
        fst (foldl attemptStep (?p, Some (length atts)) ys) ! i = ?p ! i"
      by (rule foldl_attemptStep_frame)
    moreover have "?p ! i = atts ! i"
      using \<open>i < length atts\<close> by (simp add: nth_append)
    ultimately show ?thesis using st by simp
  next
    case False
    with Cons.prems have "t_state y \<notin> set BOX_EXIT_STATES"
      and rest: "\<forall>t \<in> set (takeWhile (\<lambda>t. t_state t \<noteq> RUNNING) ys). t_state t \<notin> set BOX_EXIT_STATES"
      by simp_all
    with False have "attemptStep (atts, Some i) y = (atts, Some i)"
      by (simp add: attemptStep_skips)
    with Cons.IH [OF rest] show ?thesis by simp
  qed
qed

section \<open>Properties of the live-log reducer\<close>

subsection \<open>What one event does to the fields of the model\<close>

lemma steps_updateLogTimes [simp]: "steps (updateLogTimes m ts) = steps m"
  by (simp add: updateLogTimes_def)

lemma steps_runEvents:
  "steps (runEvents m lg ts) k =
     (if isRunTerminal lg
      then map_option (\<lambda>step. if step_state step = RUNNING then upsertState step ts UNKNOWN
                               else step) (steps m k)
      else steps m k)"
  by (simp add: runEvents_def Let_def)

lemma steps_globalMarkerEvent [simp]: "steps (globalMarkerEvent m lg ts) = steps m"
  by (simp add: globalMarkerEvent_def)

lemma steps_logsCaptured [simp]: "steps (logsCaptured m lg) = steps m"
  by (simp add: logsCaptured_def Let_def)

lemma steps_stepEvent:
  "steps (stepEvent m lg ts) k =
     (if truthy_str (stepKey lg) \<and> the (stepKey lg) = k
      then (case stepTransition
                  ((stepOrNew m k ts)\<lparr>markers := applyMarkerEvent (markers (stepOrNew m k ts)) lg ts\<rparr>)
                  lg ts of
              None \<Rightarrow> steps m k
            | Some step \<Rightarrow> Some step)
      else steps m k)"
  by (auto simp: stepEvent_def Let_def split: option.splits)

lemma stepOrNew_cong: "steps m k = steps m' k \<Longrightarrow> stepOrNew m k ts = stepOrNew m' k ts"
  by (simp add: stepOrNew_def)

lemma steps_stepEvent_cong:
  assumes "steps m = steps m'"
  shows "steps (stepEvent m lg ts) k = steps (stepEvent m' lg ts) k"
proof -
  have e: "stepOrNew m k ts = stepOrNew m' k ts"
    using assms by (simp add: stepOrNew_def)
  show ?thesis
    unfolding steps_stepEvent e assms by (rule refl)
qed

lemma steps_runEvents_cong:
  assumes "steps m = steps m'"
  shows "steps (runEvents m lg ts) = steps (runEvents m' lg ts)"
proof
  fix k
  show "steps (runEvents m lg ts) k = steps (runEvents m' lg ts) k"
    unfolding steps_runEvents assms by (rule refl)
qed

lemma steps_processLog:
  "steps (processLog m lg) k =
     steps (stepEvent (runEvents m lg (timestamp lg)) lg (timestamp lg)) k"
proof -
  have "steps (logsCaptured (globalMarkerEvent
          (runEvents (updateLogTimes m (timestamp lg)) lg (timestamp lg)) lg (timestamp lg)) lg) =
        steps (runEvents m lg (timestamp lg))"
    using steps_runEvents_cong [of "updateLogTimes m (timestamp lg)" m] by simp
  then show ?thesis
    unfolding processLog_def Let_def by (rule steps_stepEvent_cong)
qed

lemma steps_processLog_cong:
  assumes "steps m = steps m'"
  shows "steps (processLog m lg) = steps (processLog m' lg)"
proof
  fix k
  show "steps (processLog m lg) k = steps (processLog m' lg) k"
    unfolding steps_processLog
    by (rule steps_stepEvent_cong) (rule steps_runEvents_cong [OF assms])
qed

lemma steps_foldl_processLog_cong:
  "steps m = steps m' \<Longrightarrow> steps (foldl processLog m logs) = steps (foldl processLog m' logs)"
proof (induction logs arbitrary: m m')
  case Nil
  then show ?case by simp
next
  case (Cons lg logs)
  have "steps (processLog m lg) = steps (processLog m' lg)"
    using Cons.prems by (rule steps_processLog_cong)
  then have "steps (foldl processLog (processLog m lg) logs) =
      steps (foldl processLog (processLog m' lg) logs)"
    by (rule Cons.IH)
  then show ?case by simp
qed

lemma logAt_stepEvent [simp]:
  "firstLogAt (stepEvent m lg ts) = firstLogAt m"
  "mostRecentLogAt (stepEvent m lg ts) = mostRecentLogAt m"
  by (simp_all add: stepEvent_def Let_def split: option.splits)

lemma logAt_logsCaptured [simp]:
  "firstLogAt (logsCaptured m lg) = firstLogAt m"
  "mostRecentLogAt (logsCaptured m lg) = mostRecentLogAt m"
  by (simp_all add: logsCaptured_def Let_def)

lemma logAt_globalMarkerEvent [simp]:
  "firstLogAt (globalMarkerEvent m lg ts) = firstLogAt m"
  "mostRecentLogAt (globalMarkerEvent m lg ts) = mostRecentLogAt m"
  by (simp_all add: globalMarkerEvent_def)

lemma logAt_runEvents [simp]:
  "firstLogAt (runEvents m lg ts) = firstLogAt m"
  "mostRecentLogAt (runEvents m lg ts) = mostRecentLogAt m"
  by (simp_all add: runEvents_def Let_def)

lemma firstLogAt_processLog:
  "firstLogAt (processLog m lg) =
     (if firstLogAt m \<noteq> 0 then min (firstLogAt m) (timestamp lg) else timestamp lg)"
  by (simp add: processLog_def Let_def updateLogTimes_def)

lemma mostRecentLogAt_processLog:
  "mostRecentLogAt (processLog m lg) = max (mostRecentLogAt m) (timestamp lg)"
  by (simp add: processLog_def Let_def updateLogTimes_def)

lemma logAt_postProcess [simp]:
  "firstLogAt (postProcess m) = firstLogAt m" "mostRecentLogAt (postProcess m) = mostRecentLogAt m"
  by (simp_all add: postProcess_def)

lemma steps_postProcess: "steps (postProcess m) k = map_option postProcessStep (steps m k)"
  by (simp add: postProcess_def)

subsection \<open>First and most recent log time\<close>

lemma firstLogAt_foldl:
  assumes "\<forall>lg \<in> set logs. timestamp lg \<noteq> 0" and "firstLogAt m \<noteq> 0"
  shows "firstLogAt (foldl processLog m logs) = Min (insert (firstLogAt m) (timestamp ` set logs))"
  using assms
proof (induction logs arbitrary: m)
  case Nil
  then show ?case by simp
next
  case (Cons lg logs)
  have "firstLogAt (processLog m lg) = min (firstLogAt m) (timestamp lg)"
    using Cons.prems by (simp add: firstLogAt_processLog)
  moreover from this have "firstLogAt (processLog m lg) \<noteq> 0"
    using Cons.prems by (auto simp: min_def)
  ultimately have "firstLogAt (foldl processLog (processLog m lg) logs) =
      Min (insert (min (firstLogAt m) (timestamp lg)) (timestamp ` set logs))"
    using Cons.IH [of "processLog m lg"] Cons.prems by simp
  also have "\<dots> = Min (insert (firstLogAt m) (insert (timestamp lg) (timestamp ` set logs)))"
    by (cases "timestamp ` set logs = {}") (simp_all add: min.assoc)
  finally show ?case by simp
qed

lemma mostRecentLogAt_foldl:
  "mostRecentLogAt (foldl processLog m logs) =
     Max (insert (mostRecentLogAt m) (timestamp ` set logs))"
proof (induction logs arbitrary: m)
  case Nil
  then show ?case by simp
next
  case (Cons lg logs)
  have "mostRecentLogAt (foldl processLog (processLog m lg) logs) =
      Max (insert (max (mostRecentLogAt m) (timestamp lg)) (timestamp ` set logs))"
    using Cons.IH [of "processLog m lg"] by (simp add: mostRecentLogAt_processLog)
  also have "\<dots> = Max (insert (mostRecentLogAt m) (insert (timestamp lg) (timestamp ` set logs)))"
    by (cases "timestamp ` set logs = {}") (simp_all add: max.assoc)
  finally show ?case by simp
qed

text \<open>
  C6. The claim fails on the events of the scenario of C4: the first event has timestamp
  0, which the reducer reads as "no first log yet", so the next event sets \<open>firstLogAt\<close>
  to 10, not to the minimum 0.
\<close>

theorem C6_log_times_counterexample:
  "firstLogAt (extractMetadataFromLogs logs_start_success) = 10 \<and>
   Min (timestamp ` set logs_start_success) = 0"
  by (simp add: logs_start_success_def reducer_defs)

text \<open>
  C6, as the code has it. For a non-empty event sequence, \<open>firstLogAt\<close> is the minimum of
  the timestamps when no event has timestamp 0, and \<open>mostRecentLogAt\<close> is the maximum of
  the timestamps when some event has a timestamp that is not negative; every event counts,
  whatever its kind. Both hold when all timestamps are positive.
\<close>

theorem C6_log_times:
  assumes "logs \<noteq> []"
  shows "((\<forall>lg \<in> set logs. timestamp lg \<noteq> 0) \<longrightarrow>
            firstLogAt (extractMetadataFromLogs logs) = Min (timestamp ` set logs)) \<and>
         ((\<exists>lg \<in> set logs. 0 \<le> timestamp lg) \<longrightarrow>
            mostRecentLogAt (extractMetadataFromLogs logs) = Max (timestamp ` set logs))"
proof (intro conjI impI)
  assume nz: "\<forall>lg \<in> set logs. timestamp lg \<noteq> 0"
  from assms obtain lg rest where l: "logs = lg # rest" by (cases logs) auto
  have f1: "firstLogAt (processLog EMPTY_RUN_METADATA lg) = timestamp lg"
    by (simp add: firstLogAt_processLog EMPTY_RUN_METADATA_def)
  have "firstLogAt (foldl processLog (processLog EMPTY_RUN_METADATA lg) rest) =
      Min (insert (timestamp lg) (timestamp ` set rest))"
    using firstLogAt_foldl [of rest "processLog EMPTY_RUN_METADATA lg"] nz f1 l by simp
  then show "firstLogAt (extractMetadataFromLogs logs) = Min (timestamp ` set logs)"
    by (simp add: extractMetadataFromLogs_def reduceLogs_def l)
next
  assume "\<exists>lg \<in> set logs. 0 \<le> timestamp lg"
  then obtain lg where lg: "lg \<in> set logs" "0 \<le> timestamp lg" by blast
  have fin: "finite (timestamp ` set logs)" "timestamp ` set logs \<noteq> {}"
    using assms by simp_all
  have "0 \<le> Max (timestamp ` set logs)"
    using lg fin by (meson Max_ge_iff imageI)
  then have "Max (insert 0 (timestamp ` set logs)) = Max (timestamp ` set logs)"
    using fin by (simp add: max_def)
  then show "mostRecentLogAt (extractMetadataFromLogs logs) = Max (timestamp ` set logs)"
    by (simp add: extractMetadataFromLogs_def reduceLogs_def mostRecentLogAt_foldl
        EMPTY_RUN_METADATA_def)
qed

theorem C6_log_times_witness:
  "logs_with_cache_copy \<noteq> [] \<and>
   list_all (\<lambda>lg. timestamp lg \<noteq> 0) logs_with_cache_copy \<and>
   (\<exists>lg \<in> set logs_with_cache_copy. 0 \<le> timestamp lg) \<and>
   firstLogAt (extractMetadataFromLogs logs_with_cache_copy) = 10 \<and>
   mostRecentLogAt (extractMetadataFromLogs logs_with_cache_copy) = 30"
proof -
  have h1: "logs_with_cache_copy \<noteq> []"
    by (simp add: logs_with_cache_copy_def)
  have h2: "\<forall>lg \<in> set logs_with_cache_copy. timestamp lg \<noteq> 0"
    by (simp add: logs_with_cache_copy_def mkLog_def)
  have h3: "\<exists>lg \<in> set logs_with_cache_copy. 0 \<le> timestamp lg"
    by (simp add: logs_with_cache_copy_def mkLog_def)
  have v: "Min (timestamp ` set logs_with_cache_copy) = 10"
    "Max (timestamp ` set logs_with_cache_copy) = 30"
    by (simp_all add: logs_with_cache_copy_def mkLog_def)
  show ?thesis
    using C6_log_times [OF h1] h1 h2 h3 v by (simp add: list_all_iff)
qed

subsection \<open>Cache copies\<close>

lemma steps_processLog_cp:
  assumes "typename lg = ObjectStoreOperationEvent" and "op lg = ''CP_OBJECT''"
  shows "steps (processLog m lg) = steps m"
proof
  fix k
  show "steps (processLog m lg) k = steps m k"
    using assms
    by (simp add: steps_processLog steps_stepEvent steps_runEvents isRunTerminal_def
        stepTransition_def)
qed

text \<open>
  C8. An object-store event whose operation is \<open>CP_OBJECT\<close> leaves the steps of the model
  as they are when it is processed, and the model computed from a sequence that contains
  it has the same steps as the model computed from the sequence without it: for the step
  key \<open>y\<close> it carries (and for every other key) the same transitions, \<open>start\<close>, \<open>end\<close> and
  \<open>state\<close>, or no step in both.
\<close>

theorem C8_cache_copy_discarded:
  assumes "typename lg = ObjectStoreOperationEvent" and "op lg = ''CP_OBJECT''"
    and "stepKey lg = Some y"
  shows "steps (processLog m lg) y = steps m y \<and>
         steps (extractMetadataFromLogs (pre @ lg # post)) y =
           steps (extractMetadataFromLogs (pre @ post)) y"
proof -
  have "steps (foldl processLog (processLog (foldl processLog EMPTY_RUN_METADATA pre) lg) post) =
        steps (foldl processLog (foldl processLog EMPTY_RUN_METADATA pre) post)"
    by (rule steps_foldl_processLog_cong) (rule steps_processLog_cp [OF assms(1,2)])
  then show ?thesis
    using steps_processLog_cp [OF assms(1,2), of m]
    by (simp add: extractMetadataFromLogs_def reduceLogs_def steps_postProcess)
qed

theorem C8_cache_copy_discarded_witness:
  "typename ((mkLog ObjectStoreOperationEvent 10 (Some ''y''))\<lparr>op := ''CP_OBJECT''\<rparr>) =
     ObjectStoreOperationEvent \<and>
   op ((mkLog ObjectStoreOperationEvent 10 (Some ''y''))\<lparr>op := ''CP_OBJECT''\<rparr>) = ''CP_OBJECT'' \<and>
   stepKey ((mkLog ObjectStoreOperationEvent 10 (Some ''y''))\<lparr>op := ''CP_OBJECT''\<rparr>) = Some ''y'' \<and>
   steps (extractMetadataFromLogs logs_with_cache_copy) ''y'' =
     steps (extractMetadataFromLogs
       [mkLog ExecutionStepStartEvent 20 (Some ''y''),
        mkLog ExecutionStepSuccessEvent 30 (Some ''y'')]) ''y'' \<and>
   map_option transitions (steps (extractMetadataFromLogs logs_with_cache_copy) ''y'') =
     Some [\<lparr>t_state = PREPARING, t_time = 20\<rparr>, \<lparr>t_state = RUNNING, t_time = 20\<rparr>,
           \<lparr>t_state = SUCCEEDED, t_time = 30\<rparr>]"
proof -
  let ?cp = "(mkLog ObjectStoreOperationEvent 10 (Some ''y''))\<lparr>op := ''CP_OBJECT''\<rparr>"
  have h1: "typename ?cp = ObjectStoreOperationEvent" and h2: "op ?cp = ''CP_OBJECT''"
    and h3: "stepKey ?cp = Some ''y''"
    by (simp_all add: mkLog_def)
  have l: "logs_with_cache_copy =
      [mkLog ExecutionStepStartEvent 20 (Some ''y'')] @ ?cp #
      [mkLog ExecutionStepSuccessEvent 30 (Some ''y'')]"
    by (simp add: logs_with_cache_copy_def)
  have v: "map_option transitions (steps (extractMetadataFromLogs
       [mkLog ExecutionStepStartEvent 20 (Some ''y''),
        mkLog ExecutionStepSuccessEvent 30 (Some ''y'')]) ''y'') =
     Some [\<lparr>t_state = PREPARING, t_time = 20\<rparr>, \<lparr>t_state = RUNNING, t_time = 20\<rparr>,
           \<lparr>t_state = SUCCEEDED, t_time = 30\<rparr>]"
    by (simp add: reducer_defs)
  from C8_cache_copy_discarded [OF h1 h2 h3,
      of EMPTY_RUN_METADATA "[mkLog ExecutionStepStartEvent 20 (Some ''y'')]"
         "[mkLog ExecutionStepSuccessEvent 30 (Some ''y'')]"]
  have "steps (extractMetadataFromLogs logs_with_cache_copy) ''y'' =
     steps (extractMetadataFromLogs
       [mkLog ExecutionStepStartEvent 20 (Some ''y''),
        mkLog ExecutionStepSuccessEvent 30 (Some ''y'')]) ''y''"
    unfolding l by simp
  with h1 h2 h3 v show ?thesis by simp
qed

subsection \<open>The state of a step and its last transition\<close>

lemma stepInv_upsertState: "stepInv (upsertState step ts st)"
  by (simp add: stepInv_def upsertState_def)

lemma stepInv_fields [simp]:
  "stepInv (step\<lparr>markers := ms\<rparr>) = stepInv step"
  "stepInv (step\<lparr>step_start := a\<rparr>) = stepInv step"
  "stepInv (step\<lparr>step_end := b\<rparr>) = stepInv step"
  by (simp_all add: stepInv_def)

lemma stepInv_stepTransition:
  "stepInv step \<Longrightarrow> stepTransition step lg ts = Some step' \<Longrightarrow> stepInv step'"
  by (auto simp: stepTransition_def stepInv_upsertState split: if_splits)

lemma stepInv_stepOrNew:
  "(\<And>s. steps m k = Some s \<Longrightarrow> stepInv s) \<Longrightarrow> stepInv (stepOrNew m k ts)"
  by (cases "steps m k") (simp_all add: stepOrNew_def stepInv_def)

lemma stepInv_runEvents:
  assumes "\<And>s. steps m k = Some s \<Longrightarrow> stepInv s"
    and "steps (runEvents m lg ts) k = Some s'"
  shows "stepInv s'"
  using assms by (auto simp: steps_runEvents stepInv_upsertState split: if_splits)

lemma stepInv_stepEvent:
  assumes "\<And>s. steps m k = Some s \<Longrightarrow> stepInv s"
    and "steps (stepEvent m lg ts) k = Some s'"
  shows "stepInv s'"
proof (cases "truthy_str (stepKey lg) \<and> the (stepKey lg) = k")
  case False
  then have "steps (stepEvent m lg ts) k = steps m k"
    unfolding steps_stepEvent by (rule if_not_P)
  then show ?thesis using assms by simp
next
  case True
  let ?st = "(stepOrNew m k ts)\<lparr>markers := applyMarkerEvent (markers (stepOrNew m k ts)) lg ts\<rparr>"
  have inv: "stepInv ?st"
    using stepInv_stepOrNew [of m k ts] assms(1) by simp
  show ?thesis
  proof (cases "stepTransition ?st lg ts")
    case None
    then show ?thesis using assms True by (simp add: steps_stepEvent)
  next
    case (Some x)
    then have "s' = x" using assms(2) True by (simp add: steps_stepEvent)
    then show ?thesis using stepInv_stepTransition [OF inv Some] by simp
  qed
qed

lemma stepInv_processLog:
  assumes "\<And>k s. steps m k = Some s \<Longrightarrow> stepInv s"
    and "steps (processLog m lg) k = Some s'"
  shows "stepInv s'"
proof -
  have a: "\<And>s. steps (runEvents m lg (timestamp lg)) k = Some s \<Longrightarrow> stepInv s"
    using stepInv_runEvents [of m k] assms(1) by blast
  show ?thesis
    using stepInv_stepEvent [of "runEvents m lg (timestamp lg)" k lg "timestamp lg" s'] a assms(2)
    by (simp add: steps_processLog)
qed

lemma stepInv_foldl:
  assumes "\<And>k s. steps m k = Some s \<Longrightarrow> stepInv s"
    and "steps (foldl processLog m logs) k = Some s'"
  shows "stepInv s'"
  using assms
proof (induction logs arbitrary: m)
  case Nil
  then show ?case by simp
next
  case (Cons lg logs)
  have "\<And>k s. steps (processLog m lg) k = Some s \<Longrightarrow> stepInv s"
    using stepInv_processLog [of m lg] Cons.prems(1) by blast
  then show ?case
    using Cons.IH [of "processLog m lg"] Cons.prems(2) by simp
qed

lemma stepInv_reduceLogs:
  "steps (reduceLogs logs) k = Some s \<Longrightarrow> stepInv s"
  using stepInv_foldl [of EMPTY_RUN_METADATA logs k s]
  by (simp add: reduceLogs_def EMPTY_RUN_METADATA_def)

lemma last_insort_key:
  "zs \<noteq> [] \<Longrightarrow> f y \<le> f (last zs) \<Longrightarrow> last (insort_key f y zs) = last zs"
  by (induction zs) auto

lemma insort_key_not_Nil: "insort_key f y zs \<noteq> []"
  by (cases zs) auto

lemma last_foldr_insort_key:
  "zs \<noteq> [] \<Longrightarrow> \<forall>y \<in> set ys. f y \<le> f (last zs) \<Longrightarrow>
   foldr (insort_key f) ys zs \<noteq> [] \<and> last (foldr (insort_key f) ys zs) = last zs"
  by (induction ys) (auto simp: last_insort_key insort_key_not_Nil)

lemma last_sort_key:
  assumes "xs \<noteq> []" and "\<forall>t \<in> set xs. f t \<le> f (last xs)"
  shows "last (sort_key f xs) = last xs"
proof -
  from assms(1) obtain ys x where xs: "xs = ys @ [x]"
    by (cases xs rule: rev_cases) auto
  have "last (foldr (insort_key f) ys [x]) = last [x]"
    using last_foldr_insort_key [of "[x]" ys f] assms(2) xs by simp
  then show ?thesis by (simp add: xs sort_key_def)
qed

text \<open>
  What the reducer maintains: the state of a step is the state of the transition that was
  appended last, in arrival order, and post processing sorts the transitions only.
\<close>

lemma state_is_last_appended:
  assumes "steps (extractMetadataFromLogs logs) k = Some s"
  shows "\<exists>s0. steps (reduceLogs logs) k = Some s0 \<and> transitions s0 \<noteq> [] \<and>
           transitions s = sort_key t_time (transitions s0) \<and>
           step_state s = t_state (last (transitions s0)) \<and>
           ((\<forall>t \<in> set (transitions s0). t_time t \<le> t_time (last (transitions s0))) \<longrightarrow>
              step_state s = t_state (last (transitions s)))"
proof -
  from assms obtain s0 where s0: "steps (reduceLogs logs) k = Some s0"
    and s: "s = postProcessStep s0"
    by (auto simp: extractMetadataFromLogs_def steps_postProcess)
  have inv: "stepInv s0" using s0 by (rule stepInv_reduceLogs)
  have tr: "transitions s = sort_key t_time (transitions s0)"
    and st: "step_state s = step_state s0"
    by (simp_all add: s postProcessStep_def Let_def)
  have "step_state s = t_state (last (transitions s))"
    if "\<forall>t \<in> set (transitions s0). t_time t \<le> t_time (last (transitions s0))"
    using last_sort_key [of "transitions s0" t_time] that inv st tr
    by (simp add: stepInv_def)
  then show ?thesis
    using s0 inv tr st by (auto simp: stepInv_def)
qed

text \<open>
  C3. The source sorts the transitions of a step because logs may not arrive in order, and
  takes the later end of two with \<^verbatim>\<open>Math.max\<close>; the state it leaves as the event that
  arrived last has set it. For success(stepA) at 10 followed by start(stepA) at 0 the
  result has the state RUNNING, next to the end 10 and an attempt that has exited as
  SUCCEEDED, while the last of its time-sorted transitions is SUCCEEDED at 10: the state
  is not the state of the latest transition.
\<close>

theorem C3_state_not_latest:
  "steps (extractMetadataFromLogs logs_success_first) ''stepA'' =
     Some \<lparr>step_state = RUNNING, step_start = Some 0, step_end = Some 10,
           transitions = [\<lparr>t_state = RUNNING, t_time = 0\<rparr>,
                          \<lparr>t_state = PREPARING, t_time = 10\<rparr>,
                          \<lparr>t_state = SUCCEEDED, t_time = 10\<rparr>],
           attempts = [\<lparr>att_start = Some 0, att_end = Some 10,
                        att_exitState = Some SUCCEEDED\<rparr>],
           markers = []\<rparr> \<and>
   map_option (\<lambda>s. t_state (last (transitions s)))
     (steps (extractMetadataFromLogs logs_success_first) ''stepA'') = Some SUCCEEDED \<and>
   map_option step_state (steps (extractMetadataFromLogs logs_success_first) ''stepA'') \<noteq>
     map_option (\<lambda>s. t_state (last (transitions s)))
       (steps (extractMetadataFromLogs logs_success_first) ''stepA'')"
  by (simp add: logs_success_first_def reducer_defs)

subsection \<open>One attempt, written twice\<close>

text \<open>
  C9. A transition into an exit state (RETRY_REQUESTED, SUCCEEDED, FAILED, UNKNOWN) writes
  its time and state into the attempt that was opened last, whether or not that attempt
  has an end already. So a step of the model of any event sequence whose sorted transitions
  are, after transitions that are not RUNNING (such as its initial PREPARING one), a
  RUNNING transition at \<open>t0\<close> and two exit transitions at \<open>t1\<close> and \<open>t2\<close>, has
  exactly one attempt, from \<open>t0\<close> to \<open>t2\<close> with the state of the last transition: no
  second attempt is opened and the end at \<open>t1\<close> is not kept.
\<close>

theorem C9_exit_overwrites:
  assumes "steps (extractMetadataFromLogs logs) k = Some s"
    and "transitions s =
           pre @ [\<lparr>t_state = RUNNING, t_time = t0\<rparr>, \<lparr>t_state = x, t_time = t1\<rparr>,
                  \<lparr>t_state = y, t_time = t2\<rparr>]"
    and "\<forall>t \<in> set pre. t_state t \<noteq> RUNNING"
    and "x \<in> set BOX_EXIT_STATES" and "y \<in> set BOX_EXIT_STATES"
  shows "attempts s = [\<lparr>att_start = Some t0, att_end = Some t2, att_exitState = Some y\<rparr>]"
proof -
  from assms(1) obtain r where r: "steps (reduceLogs logs) k = Some r"
    and s: "s = postProcessStep r"
    by (auto simp: extractMetadataFromLogs_def steps_postProcess)
  have a: "attempts r = []"
    using stepInv_reduceLogs [OF r] by (simp add: stepInv_def)
  have tr: "sort_key t_time (transitions r) =
      pre @ [\<lparr>t_state = RUNNING, t_time = t0\<rparr>, \<lparr>t_state = x, t_time = t1\<rparr>,
             \<lparr>t_state = y, t_time = t2\<rparr>]"
    using assms(2) by (simp add: s postProcessStep_def Let_def)
  have "foldl attemptStep ([], None)
          (pre @ [\<lparr>t_state = RUNNING, t_time = t0\<rparr>, \<lparr>t_state = x, t_time = t1\<rparr>,
                  \<lparr>t_state = y, t_time = t2\<rparr>]) =
        ([\<lparr>att_start = Some t0, att_end = Some t2, att_exitState = Some y\<rparr>], Some 0)"
    using assms(3-5)
    by (simp add: foldl_attemptStep_idle attemptStep_open attemptStep_exit)
  then show ?thesis
    by (simp add: s postProcessStep_def Let_def buildAttempts_def a tr)
qed

theorem C9_exit_overwrites_witness:
  "steps (extractMetadataFromLogs logs_fail_then_succeed) ''stepA'' =
     Some \<lparr>step_state = SUCCEEDED, step_start = Some 1, step_end = Some 9,
           transitions = [\<lparr>t_state = PREPARING, t_time = 1\<rparr>] @
             [\<lparr>t_state = RUNNING, t_time = 1\<rparr>, \<lparr>t_state = FAILED, t_time = 5\<rparr>,
              \<lparr>t_state = SUCCEEDED, t_time = 9\<rparr>],
           attempts = [\<lparr>att_start = Some 1, att_end = Some 9,
                        att_exitState = Some SUCCEEDED\<rparr>],
           markers = []\<rparr> \<and>
   list_all (\<lambda>t. t_state t \<noteq> RUNNING) [\<lparr>t_state = PREPARING, t_time = 1\<rparr>] \<and>
   FAILED \<in> set BOX_EXIT_STATES \<and> SUCCEEDED \<in> set BOX_EXIT_STATES \<and>
   map_option attempts (steps (extractMetadataFromLogs logs_fail_then_succeed) ''stepA'') =
     Some [\<lparr>att_start = Some 1, att_end = Some 9, att_exitState = Some SUCCEEDED\<rparr>]"
proof -
  obtain s where h1: "steps (extractMetadataFromLogs logs_fail_then_succeed) ''stepA'' = Some s"
    and v: "s = \<lparr>step_state = SUCCEEDED, step_start = Some 1, step_end = Some 9,
           transitions = [\<lparr>t_state = PREPARING, t_time = 1\<rparr>] @
             [\<lparr>t_state = RUNNING, t_time = 1\<rparr>, \<lparr>t_state = FAILED, t_time = 5\<rparr>,
              \<lparr>t_state = SUCCEEDED, t_time = 9\<rparr>],
           attempts = [\<lparr>att_start = Some 1, att_end = Some 9,
                        att_exitState = Some SUCCEEDED\<rparr>],
           markers = []\<rparr>"
    by (simp add: logs_fail_then_succeed_def reducer_defs)
  have h2: "transitions s =
      [\<lparr>t_state = PREPARING, t_time = 1\<rparr>] @
      [\<lparr>t_state = RUNNING, t_time = 1\<rparr>, \<lparr>t_state = FAILED, t_time = 5\<rparr>,
       \<lparr>t_state = SUCCEEDED, t_time = 9\<rparr>]"
    by (simp add: v)
  have h3: "\<forall>t \<in> set [\<lparr>t_state = PREPARING, t_time = 1\<rparr>]. t_state t \<noteq> RUNNING"
    by simp
  have h4: "FAILED \<in> set BOX_EXIT_STATES" and h5: "SUCCEEDED \<in> set BOX_EXIT_STATES"
    by (simp_all add: BOX_EXIT_STATES_def)
  from C9_exit_overwrites [OF h1 h2 h3 h4 h5] have
    "attempts s = [\<lparr>att_start = Some 1, att_end = Some 9, att_exitState = Some SUCCEEDED\<rparr>]" .
  with h1 v h4 h5 show ?thesis by simp
qed

subsection \<open>Events that arrive later and are later\<close>

lemma stepExt_refl: "stepExt T s s"
  by (simp add: stepExt_def)

lemma stepExt_trans:
  assumes "stepExt T a b" and "stepExt T b c"
  shows "stepExt T a c"
proof -
  from assms(1) obtain n1 where n1: "transitions b = transitions a @ n1"
    "n1 \<noteq> [] \<longrightarrow> (\<exists>t \<in> set n1. T < t_time t)"
    "n1 = [] \<longrightarrow> step_state b = step_state a \<and> step_start b = step_start a \<and>
           step_end b = step_end a \<and> attempts b = attempts a"
    unfolding stepExt_def by blast
  from assms(2) obtain n2 where n2: "transitions c = transitions b @ n2"
    "n2 \<noteq> [] \<longrightarrow> (\<exists>t \<in> set n2. T < t_time t)"
    "n2 = [] \<longrightarrow> step_state c = step_state b \<and> step_start c = step_start b \<and>
           step_end c = step_end b \<and> attempts c = attempts b"
    unfolding stepExt_def by blast
  have "transitions c = transitions a @ (n1 @ n2)"
    using n1(1) n2(1) by simp
  moreover have "n1 @ n2 \<noteq> [] \<longrightarrow> (\<exists>t \<in> set (n1 @ n2). T < t_time t)"
    using n1(2) n2(2) by auto
  moreover have "n1 @ n2 = [] \<longrightarrow> step_state c = step_state a \<and> step_start c = step_start a \<and>
           step_end c = step_end a \<and> attempts c = attempts a"
    using n1(3) n2(3) by simp
  ultimately show ?thesis
    unfolding stepExt_def by blast
qed

lemma stepExt_markers: "stepExt T s (s\<lparr>markers := ms\<rparr>)"
  by (simp add: stepExt_def)

lemma stepExt_upsertState: "T < ts \<Longrightarrow> stepExt T s (upsertState s ts st)"
  by (simp add: stepExt_def upsertState_def)

lemma stepExt_appended:
  assumes "transitions s' = transitions s @ new" and "new \<noteq> []"
    and "\<exists>t \<in> set new. T < t_time t"
  shows "stepExt T s s'"
  unfolding stepExt_def using assms by blast

lemma stepExt_stepTransition:
  assumes "T < ts" and "stepTransition step lg ts = Some s'"
  shows "stepExt T step s'"
proof -
  consider (start) "typename lg = ExecutionStepStartEvent"
    | (success) "typename lg = ExecutionStepSuccessEvent"
    | (skipped) "typename lg = ExecutionStepSkippedEvent"
    | (failure) "typename lg = ExecutionStepFailureEvent"
    | (retry) "typename lg = ExecutionStepUpForRetryEvent"
    | (restart) "typename lg = ExecutionStepRestartEvent"
    | (other) "typename lg \<noteq> ExecutionStepStartEvent" "typename lg \<noteq> ExecutionStepSuccessEvent"
        "typename lg \<noteq> ExecutionStepSkippedEvent" "typename lg \<noteq> ExecutionStepFailureEvent"
        "typename lg \<noteq> ExecutionStepUpForRetryEvent" "typename lg \<noteq> ExecutionStepRestartEvent"
    by blast
  then show ?thesis
  proof cases
    case start
    with assms show ?thesis
      by (intro stepExt_appended [where new = "[\<lparr>t_state = RUNNING, t_time = ts\<rparr>]"])
         (auto simp: stepTransition_def upsertState_def)
  next
    case success
    with assms show ?thesis
      by (intro stepExt_appended [where new = "[\<lparr>t_state = SUCCEEDED, t_time = ts\<rparr>]"])
         (auto simp: stepTransition_def upsertState_def)
  next
    case skipped
    with assms show ?thesis
      by (intro stepExt_appended [where new = "[\<lparr>t_state = SKIPPED, t_time = ts\<rparr>]"])
         (auto simp: stepTransition_def upsertState_def)
  next
    case failure
    with assms show ?thesis
      by (intro stepExt_appended [where new = "[\<lparr>t_state = FAILED, t_time = ts\<rparr>]"])
         (auto simp: stepTransition_def upsertState_def)
  next
    case retry
    with assms show ?thesis
      by (intro stepExt_appended [where new = "[\<lparr>t_state = RETRY_REQUESTED, t_time = ts\<rparr>,
            \<lparr>t_state = PREPARING, t_time = addDouble ts 1\<rparr>]"])
         (auto simp: stepTransition_def upsertState_def)
  next
    case restart
    with assms show ?thesis
      by (intro stepExt_appended [where new = "[\<lparr>t_state = RUNNING, t_time = ts\<rparr>]"])
         (auto simp: stepTransition_def upsertState_def)
  next
    case other
    with assms(2) have "s' = step"
      by (simp add: stepTransition_def split: if_splits)
    then show ?thesis by (simp add: stepExt_refl)
  qed
qed

lemma runEvents_ext:
  assumes "T < ts" and "steps m k = Some s"
  shows "\<exists>s'. steps (runEvents m lg ts) k = Some s' \<and> stepExt T s s'"
  using assms by (simp add: steps_runEvents stepExt_refl stepExt_upsertState)

lemma runEvents_absent:
  "steps m k = None \<Longrightarrow> steps (runEvents m lg ts) k = None"
  by (simp add: steps_runEvents)

lemma stepEvent_ext:
  assumes "T < ts" and "steps m k = Some s"
  shows "\<exists>s'. steps (stepEvent m lg ts) k = Some s' \<and> stepExt T s s'"
proof (cases "truthy_str (stepKey lg) \<and> the (stepKey lg) = k")
  case False
  then have "steps (stepEvent m lg ts) k = steps m k"
    unfolding steps_stepEvent by (rule if_not_P)
  then show ?thesis using assms by (simp add: stepExt_refl)
next
  case True
  have on: "stepOrNew m k ts = s"
    using assms(2) by (simp add: stepOrNew_def)
  let ?st = "s\<lparr>markers := applyMarkerEvent (markers s) lg ts\<rparr>"
  have eq: "steps (stepEvent m lg ts) k =
      (case stepTransition ?st lg ts of None \<Rightarrow> Some s | Some step \<Rightarrow> Some step)"
    using True assms(2) by (simp add: steps_stepEvent on split: option.splits)
  show ?thesis
  proof (cases "stepTransition ?st lg ts")
    case None
    then show ?thesis using eq by (simp add: stepExt_refl)
  next
    case (Some x)
    have "stepExt T s ?st" by (rule stepExt_markers)
    moreover have "stepExt T ?st x" using assms(1) Some by (rule stepExt_stepTransition)
    ultimately have "stepExt T s x" by (rule stepExt_trans)
    then show ?thesis using eq Some by simp
  qed
qed

lemma stepEvent_new:
  assumes "T < ts" and "steps m k = None" and "steps (stepEvent m lg ts) k = Some s'"
  shows "\<exists>t \<in> set (transitions s'). T < t_time t"
proof (cases "truthy_str (stepKey lg) \<and> the (stepKey lg) = k")
  case False
  then have "steps (stepEvent m lg ts) k = steps m k"
    unfolding steps_stepEvent by (rule if_not_P)
  then show ?thesis using assms by simp
next
  case True
  let ?new = "\<lparr>step_state = PREPARING, step_start = None, step_end = None,
           transitions = [\<lparr>t_state = PREPARING, t_time = ts\<rparr>],
           attempts = [], markers = []\<rparr>"
  have on: "stepOrNew m k ts = ?new"
    using assms(2) by (simp add: stepOrNew_def)
  let ?st = "?new\<lparr>markers := applyMarkerEvent (markers ?new) lg ts\<rparr>"
  have eq: "steps (stepEvent m lg ts) k =
      (case stepTransition ?st lg ts of None \<Rightarrow> None | Some step \<Rightarrow> Some step)"
    using True assms(2) unfolding steps_stepEvent on by (simp split: option.splits)
  with assms(3) have tr: "stepTransition ?st lg ts = Some s'"
    by (simp split: option.splits)
  have "stepExt T ?st s'" using assms(1) tr by (rule stepExt_stepTransition)
  then obtain new where "transitions s' = transitions ?st @ new"
    unfolding stepExt_def by blast
  then have "\<lparr>t_state = PREPARING, t_time = ts\<rparr> \<in> set (transitions s')" by simp
  then show ?thesis using assms(1) by force
qed

lemma processLog_ext:
  assumes "T < timestamp lg" and "steps m k = Some s"
  shows "\<exists>s'. steps (processLog m lg) k = Some s' \<and> stepExt T s s'"
proof -
  from runEvents_ext [OF assms] obtain s1 where
    s1: "steps (runEvents m lg (timestamp lg)) k = Some s1" "stepExt T s s1" by blast
  from stepEvent_ext [OF assms(1) s1(1)] obtain s2 where
    s2: "steps (stepEvent (runEvents m lg (timestamp lg)) lg (timestamp lg)) k = Some s2"
      "stepExt T s1 s2" by blast
  have "stepExt T s s2" using s1(2) s2(2) by (rule stepExt_trans)
  then show ?thesis using s2(1) by (simp add: steps_processLog)
qed

lemma processLog_new:
  assumes "T < timestamp lg" and "steps m k = None" and "steps (processLog m lg) k = Some s'"
  shows "\<exists>t \<in> set (transitions s'). T < t_time t"
  using stepEvent_new [OF assms(1) runEvents_absent [OF assms(2)]] assms(3)
  by (simp add: steps_processLog)

lemma processLog_not_stored:
  assumes "\<not> isRunTerminal lg" and "\<not> storesStep k lg"
  shows "steps (processLog m lg) k = steps m k"
proof -
  have r: "steps (runEvents m lg (timestamp lg)) k = steps m k"
    using assms(1) by (simp add: steps_runEvents)
  show ?thesis
  proof (cases "truthy_str (stepKey lg) \<and> the (stepKey lg) = k")
    case False
    then have "steps (stepEvent (runEvents m lg (timestamp lg)) lg (timestamp lg)) k =
        steps (runEvents m lg (timestamp lg)) k"
      unfolding steps_stepEvent by (rule if_not_P)
    then show ?thesis by (simp add: steps_processLog r)
  next
    case True
    with assms(2) have "typename lg = ObjectStoreOperationEvent" "op lg = ''CP_OBJECT''"
      by (simp_all add: storesStep_def)
    then have "steps (processLog m lg) = steps m" by (rule steps_processLog_cp)
    then show ?thesis by simp
  qed
qed

lemma foldl_ext:
  assumes "\<forall>lg \<in> set logs. storesStep k lg \<or> isRunTerminal lg \<longrightarrow> T < timestamp lg"
    and "steps m k = Some s"
  shows "\<exists>s'. steps (foldl processLog m logs) k = Some s' \<and> stepExt T s s'"
  using assms
proof (induction logs arbitrary: m s)
  case Nil
  then show ?case by (simp add: stepExt_refl)
next
  case (Cons lg logs)
  have rest: "\<forall>lg \<in> set logs. storesStep k lg \<or> isRunTerminal lg \<longrightarrow> T < timestamp lg"
    using Cons.prems(1) by simp
  have "\<exists>s1. steps (processLog m lg) k = Some s1 \<and> stepExt T s s1"
  proof (cases "storesStep k lg \<or> isRunTerminal lg")
    case True
    with Cons.prems(1) have "T < timestamp lg" by auto
    then show ?thesis using Cons.prems(2) by (rule processLog_ext)
  next
    case False
    then have "steps (processLog m lg) k = steps m k"
      by (intro processLog_not_stored) simp_all
    then show ?thesis using Cons.prems(2) by (simp add: stepExt_refl)
  qed
  then obtain s1 where
    s1: "steps (processLog m lg) k = Some s1" "stepExt T s s1" by blast
  from Cons.IH [OF rest s1(1)] obtain s2 where
    s2: "steps (foldl processLog (processLog m lg) logs) k = Some s2" "stepExt T s1 s2"
    by auto
  have "stepExt T s s2" using s1(2) s2(2) by (rule stepExt_trans)
  then show ?case using s2(1) by simp
qed

lemma foldl_new:
  assumes "\<forall>lg \<in> set logs. storesStep k lg \<or> isRunTerminal lg \<longrightarrow> T < timestamp lg"
    and "steps m k = None"
    and "steps (foldl processLog m logs) k = Some s'"
  shows "\<exists>t \<in> set (transitions s'). T < t_time t"
  using assms
proof (induction logs arbitrary: m)
  case Nil
  then show ?case by simp
next
  case (Cons lg logs)
  have rest: "\<forall>lg \<in> set logs. storesStep k lg \<or> isRunTerminal lg \<longrightarrow> T < timestamp lg"
    using Cons.prems(1) by simp
  show ?case
  proof (cases "steps (processLog m lg) k")
    case None
    then show ?thesis using Cons.IH [OF rest None] Cons.prems(3) by simp
  next
    case (Some s1)
    have "storesStep k lg \<or> isRunTerminal lg"
    proof (rule ccontr)
      assume "\<not> (storesStep k lg \<or> isRunTerminal lg)"
      then have "steps (processLog m lg) k = steps m k"
        by (intro processLog_not_stored) simp_all
      then show False using Some Cons.prems(2) by simp
    qed
    with Cons.prems(1) have lt: "T < timestamp lg" by auto
    from processLog_new [OF lt Cons.prems(2) Some] obtain t where
      t: "t \<in> set (transitions s1)" "T < t_time t" by blast
    from foldl_ext [OF rest Some] obtain s2 where
      s2: "steps (foldl processLog (processLog m lg) logs) k = Some s2" "stepExt T s1 s2"
      by blast
    have "s2 = s'" using s2(1) Cons.prems(3) by simp
    moreover from s2(2) have "set (transitions s1) \<subseteq> set (transitions s2)"
      unfolding stepExt_def by auto
    ultimately show ?thesis using t by blast
  qed
qed

lemma reduceLogs_append: "reduceLogs (logs @ ext) = foldl processLog (reduceLogs logs) ext"
  by (simp add: reduceLogs_def)

lemma postProcessStep_fields [simp]:
  "step_state (postProcessStep s) = step_state s"
  "step_start (postProcessStep s) = step_start s"
  "step_end (postProcessStep s) = step_end s"
  "transitions (postProcessStep s) = sort_key t_time (transitions s)"
  "attempts (postProcessStep s) = buildAttempts (attempts s) (sort_key t_time (transitions s))"
  by (simp_all add: postProcessStep_def Let_def)

text \<open>
  C2. The claim fails when an added event that stores the step, or that ends the run, is
  earlier than the events before it. After start(stepA) at 5 the step is RUNNING and has no
  end. Adding success(stepA) at 3 gives a model in which all transitions of the step are
  at times up to 5, the state is SUCCEEDED and the end is 3. Adding a run failure at 3
  instead gives a model in which all transitions of the step are at times up to 5 and the
  state is UNKNOWN.
\<close>

theorem C2_growth_counterexample:
  "list_all (\<lambda>t. t_time t \<le> timestamp (last logs_start_at_5))
     (transitions (the (steps (extractMetadataFromLogs (logs_start_at_5 @ logs_late_success))
        ''stepA''))) \<and>
   map_option (\<lambda>s. (step_state s, step_end s))
     (steps (extractMetadataFromLogs logs_start_at_5) ''stepA'') = Some (RUNNING, None) \<and>
   map_option (\<lambda>s. (step_state s, step_end s))
     (steps (extractMetadataFromLogs (logs_start_at_5 @ logs_late_success)) ''stepA'') =
     Some (SUCCEEDED, Some 3) \<and>
   list_all (\<lambda>t. t_time t \<le> timestamp (last logs_start_at_5))
     (transitions (the (steps
        (extractMetadataFromLogs (logs_start_at_5 @ logs_late_run_failure)) ''stepA''))) \<and>
   map_option step_state
     (steps (extractMetadataFromLogs (logs_start_at_5 @ logs_late_run_failure)) ''stepA'') =
     Some UNKNOWN"
  by (simp add: logs_start_at_5_def logs_late_success_def logs_late_run_failure_def
      reducer_defs)

text \<open>
  C2, as the code has it. Let every added event that stores the step, and every added event
  that ends the run, have a timestamp later than the timestamp of the last event of the
  sequence; the other added events, those of other steps among them, may carry any
  timestamp. Then a step of the model of the extended sequence whose transitions are all at
  times up to that timestamp is a step of the model of the sequence alone, with the same
  state, start, end, attempts and transitions.
\<close>

theorem C2_growth:
  assumes "\<forall>lg \<in> set ext. storesStep k lg \<or> isRunTerminal lg \<longrightarrow>
             timestamp (last logs) < timestamp lg"
    and "steps (extractMetadataFromLogs (logs @ ext)) k = Some s'"
    and "\<forall>t \<in> set (transitions s'). t_time t \<le> timestamp (last logs)"
  shows "\<exists>s. steps (extractMetadataFromLogs logs) k = Some s \<and>
           step_state s = step_state s' \<and> step_start s = step_start s' \<and>
           step_end s = step_end s' \<and> attempts s = attempts s' \<and>
           transitions s = transitions s'"
proof -
  let ?T = "timestamp (last logs)"
  from assms(2) obtain r' where r': "steps (reduceLogs (logs @ ext)) k = Some r'"
    and s': "s' = postProcessStep r'"
    by (auto simp: extractMetadataFromLogs_def steps_postProcess)
  have fold: "steps (foldl processLog (reduceLogs logs) ext) k = Some r'"
    using r' by (simp add: reduceLogs_append)
  have le: "\<forall>t \<in> set (transitions r'). t_time t \<le> ?T"
    using assms(3) by (simp add: s')
  show ?thesis
  proof (cases "steps (reduceLogs logs) k")
    case None
    from foldl_new [OF assms(1) None fold] le show ?thesis by force
  next
    case (Some r)
    from foldl_ext [OF assms(1) Some] fold have "stepExt ?T r r'" by simp
    then obtain new where new: "transitions r' = transitions r @ new"
      "new \<noteq> [] \<longrightarrow> (\<exists>t \<in> set new. ?T < t_time t)"
      "new = [] \<longrightarrow> step_state r' = step_state r \<and> step_start r' = step_start r \<and>
           step_end r' = step_end r \<and> attempts r' = attempts r"
      unfolding stepExt_def by blast
    have "new = []"
    proof (rule ccontr)
      assume "new \<noteq> []"
      with new(2) obtain t where "t \<in> set new" "?T < t_time t" by blast
      with new(1) le show False by force
    qed
    with new have "transitions r' = transitions r" "step_state r' = step_state r"
      "step_start r' = step_start r" "step_end r' = step_end r" "attempts r' = attempts r"
      by simp_all
    then show ?thesis
      using Some by (simp add: extractMetadataFromLogs_def steps_postProcess s')
  qed
qed

theorem C2_growth_witness:
  "list_all (\<lambda>lg. storesStep ''stepA'' lg \<or> isRunTerminal lg \<longrightarrow>
        timestamp (last logs_start_success) < timestamp lg) logs_other_step_early \<and>
   map (\<lambda>lg. timestamp lg < timestamp (last logs_start_success)) logs_other_step_early =
     [True, False] \<and>
   list_all (\<lambda>t. t_time t \<le> timestamp (last logs_start_success))
     (transitions (the (steps
        (extractMetadataFromLogs (logs_start_success @ logs_other_step_early)) ''stepA''))) \<and>
   (\<exists>s. steps (extractMetadataFromLogs logs_start_success) ''stepA'' = Some s \<and>
      step_state s = SUCCEEDED \<and> step_start s = Some 0 \<and> step_end s = Some 10 \<and>
      attempts s = [\<lparr>att_start = Some 0, att_end = Some 10, att_exitState = Some SUCCEEDED\<rparr>])"
proof -
  let ?s' = "\<lparr>step_state = SUCCEEDED, step_start = Some 0, step_end = Some 10,
           transitions = [\<lparr>t_state = PREPARING, t_time = 0\<rparr>,
                          \<lparr>t_state = RUNNING, t_time = 0\<rparr>,
                          \<lparr>t_state = SUCCEEDED, t_time = 10\<rparr>],
           attempts = [\<lparr>att_start = Some 0, att_end = Some 10,
                        att_exitState = Some SUCCEEDED\<rparr>],
           markers = []\<rparr>"
  have l: "timestamp (last logs_start_success) = 10"
    by (simp add: logs_start_success_def mkLog_def)
  have h1: "\<forall>lg \<in> set logs_other_step_early. storesStep ''stepA'' lg \<or> isRunTerminal lg \<longrightarrow>
      timestamp (last logs_start_success) < timestamp lg"
    unfolding l
    by (simp add: logs_other_step_early_def mkLog_def storesStep_def isRunTerminal_def)
  have e: "map (\<lambda>lg. timestamp lg < timestamp (last logs_start_success)) logs_other_step_early =
      [True, False]"
    unfolding l by (simp add: logs_other_step_early_def mkLog_def)
  have h2: "steps (extractMetadataFromLogs (logs_start_success @ logs_other_step_early)) ''stepA'' =
      Some ?s'"
    by (simp add: logs_start_success_def logs_other_step_early_def reducer_defs)
  have h3: "\<forall>t \<in> set (transitions ?s'). t_time t \<le> timestamp (last logs_start_success)"
    unfolding l by simp
  from C2_growth [OF h1 h2 h3] have
    "\<exists>s. steps (extractMetadataFromLogs logs_start_success) ''stepA'' = Some s \<and>
      step_state s = SUCCEEDED \<and> step_start s = Some 0 \<and> step_end s = Some 10 \<and>
      attempts s = [\<lparr>att_start = Some 0, att_end = Some 10, att_exitState = Some SUCCEEDED\<rparr>]"
    by auto
  with h1 e h2 h3 show ?thesis by (simp add: list_all_iff)
qed

subsection \<open>Retries\<close>

lemma lower_bound_timestamps: "\<exists>T. \<forall>lg \<in> set logs. T < timestamp lg"
proof (induction logs)
  case Nil
  then show ?case by simp
next
  case (Cons lg logs)
  then obtain T where "\<forall>x \<in> set logs. T < timestamp x" by blast
  then have "\<forall>x \<in> set (lg # logs). min T (timestamp lg - 1) < timestamp x"
    by auto
  then show ?case by blast
qed

lemma foldl_processLog_keeps_transitions:
  assumes "steps m k = Some s"
  shows "\<exists>s'. steps (foldl processLog m logs) k = Some s' \<and>
           set (transitions s) \<subseteq> set (transitions s')"
proof -
  obtain T where "\<forall>lg \<in> set logs. T < timestamp lg"
    using lower_bound_timestamps by blast
  then have "\<forall>lg \<in> set logs. storesStep k lg \<or> isRunTerminal lg \<longrightarrow> T < timestamp lg"
    by simp
  from foldl_ext [OF this assms] obtain s' where
    "steps (foldl processLog m logs) k = Some s'" "stepExt T s s'" by blast
  then show ?thesis unfolding stepExt_def by auto
qed

lemma processLog_retry:
  assumes "typename lg = ExecutionStepUpForRetryEvent" and "stepKey lg = Some k" and "k \<noteq> []"
  shows "\<exists>s'. steps (processLog m lg) k = Some s' \<and>
           transitions s' =
             (case steps m k of
                None \<Rightarrow> [\<lparr>t_state = PREPARING, t_time = timestamp lg\<rparr>]
              | Some s \<Rightarrow> transitions s) @
             [\<lparr>t_state = RETRY_REQUESTED, t_time = timestamp lg\<rparr>,
              \<lparr>t_state = PREPARING, t_time = addDouble (timestamp lg) 1\<rparr>]"
proof -
  have nt: "\<not> isRunTerminal lg"
    using assms(1) by (simp add: isRunTerminal_def)
  have key: "truthy_str (stepKey lg) \<and> the (stepKey lg) = k"
    using assms(2,3) by (simp add: truthy_str_def)
  have st: "\<And>step. stepTransition step lg (timestamp lg) =
      Some (upsertState (upsertState step (timestamp lg) RETRY_REQUESTED)
              (addDouble (timestamp lg) 1) PREPARING)"
    using assms(1) by (simp add: stepTransition_def)
  have r: "steps (runEvents m lg (timestamp lg)) k = steps m k"
    using nt by (simp add: steps_runEvents)
  show ?thesis
    unfolding steps_processLog steps_stepEvent st
    using key r by (simp add: stepOrNew_def upsertState_def split: option.splits)
qed

lemma addDouble_limit: "addDouble 9007199254740992 1 = 9007199254740992"
proof -
  have "\<lfloor>9007199254740993 / 2 :: rat\<rfloor> = 4503599627370496"
    by (rule floor_unique) simp_all
  then show ?thesis by (simp add: double_defs)
qed

text \<open>
  C5. The claim fails in the attempts: the end that a retry event gives an attempt is
  written again by a later exit transition. After start at 0, retry at 5 and failure at 8
  the only attempt ends at 8 with FAILED, and no attempt has the exit state
  RETRY_REQUESTED. Two more failures are at the edges of the numbers. From \<open>2\<^bsup>53\<^esup>\<close> on
  \<^verbatim>\<open>timestamp + 1\<close> is \<^verbatim>\<open>timestamp\<close>, so a retry at \<open>2\<^bsup>53\<^esup>\<close> gives PREPARING at
  \<open>2\<^bsup>53\<^esup>\<close>. And an end that is 0 counts as no end: after start at 0, retry at 0, restart
  at 3 and failure at 7 the restart opens no second attempt, and the only attempt ends
  at 7 with FAILED.
\<close>

theorem C5_retry_counterexample:
  "map_option attempts (steps (extractMetadataFromLogs logs_retry_then_failure) ''stepA'') =
     Some [\<lparr>att_start = Some 0, att_end = Some 8, att_exitState = Some FAILED\<rparr>] \<and>
   map_option transitions (steps (extractMetadataFromLogs logs_retry_at_limit) ''stepA'') =
     Some [\<lparr>t_state = PREPARING, t_time = 0\<rparr>, \<lparr>t_state = RUNNING, t_time = 0\<rparr>,
           \<lparr>t_state = RETRY_REQUESTED, t_time = 9007199254740992\<rparr>,
           \<lparr>t_state = PREPARING, t_time = 9007199254740992\<rparr>] \<and>
   map_option attempts (steps (extractMetadataFromLogs logs_retry_at_0) ''stepA'') =
     Some [\<lparr>att_start = Some 0, att_end = Some 7, att_exitState = Some FAILED\<rparr>]"
  by (simp add: logs_retry_then_failure_def logs_retry_at_limit_def logs_retry_at_0_def
      reducer_defs addDouble_limit)

text \<open>
  C5, as the code has it. Take a queued-for-retry event at a timestamp \<open>T\<close> that is a safe
  integer and not 0, with a non-empty step key that names no inherited member of an
  object. The event appends exactly two transitions to the transitions of its step,
  RETRY_REQUESTED at \<open>T\<close> and PREPARING at \<open>T + 1\<close> (to the initial PREPARING at \<open>T\<close>
  when the event is the first of its step), and in the model of any sequence that contains the
  event both are among the transitions of the step. In the attempts of that model: wherever
  the transition RETRY_REQUESTED at \<open>T\<close> stands in the sorted transitions, if the scan
  refers to an attempt when it reaches the transition, and no exit transition stands
  between the transition and the next RUNNING one, then that attempt ends at \<open>T\<close> with the
  exit state RETRY_REQUESTED in the result.
\<close>

theorem C5_retry_synthesis:
  assumes "typename lg = ExecutionStepUpForRetryEvent" and "stepKey lg = Some k"
    and "k \<noteq> []" and "k \<notin> set objectPrototypeKeys"
    and "isSafeInteger (timestamp lg)" and "timestamp lg \<noteq> 0"
    and "steps (extractMetadataFromLogs (pre @ lg # post)) k = Some s"
  shows "(\<exists>s'. steps (processLog m lg) k = Some s' \<and>
            transitions s' =
              (case steps m k of
                 None \<Rightarrow> [\<lparr>t_state = PREPARING, t_time = timestamp lg\<rparr>]
               | Some s0 \<Rightarrow> transitions s0) @
              [\<lparr>t_state = RETRY_REQUESTED, t_time = timestamp lg\<rparr>,
               \<lparr>t_state = PREPARING, t_time = timestamp lg + 1\<rparr>]) \<and>
         \<lparr>t_state = RETRY_REQUESTED, t_time = timestamp lg\<rparr> \<in> set (transitions s) \<and>
         \<lparr>t_state = PREPARING, t_time = timestamp lg + 1\<rparr> \<in> set (transitions s) \<and>
         (\<forall>xs ys atts i.
            transitions s = xs @ \<lparr>t_state = RETRY_REQUESTED, t_time = timestamp lg\<rparr> # ys \<and>
            foldl attemptStep ([], None) xs = (atts, Some i) \<and>
            (\<forall>t \<in> set (takeWhile (\<lambda>t. t_state t \<noteq> RUNNING) ys).
               t_state t \<notin> set BOX_EXIT_STATES) \<longrightarrow>
            i < length (attempts s) \<and>
            attempts s ! i =
              (atts ! i)\<lparr>att_end := Some (timestamp lg),
                         att_exitState := Some RETRY_REQUESTED\<rparr>)"
proof (intro conjI allI impI)
  have add: "addDouble (timestamp lg) 1 = timestamp lg + 1"
    using assms(5) by (rule addDouble_safe)
  note retry = processLog_retry [OF assms(1-3), unfolded add]
  show "\<exists>s'. steps (processLog m lg) k = Some s' \<and>
            transitions s' =
              (case steps m k of
                 None \<Rightarrow> [\<lparr>t_state = PREPARING, t_time = timestamp lg\<rparr>]
               | Some s0 \<Rightarrow> transitions s0) @
              [\<lparr>t_state = RETRY_REQUESTED, t_time = timestamp lg\<rparr>,
               \<lparr>t_state = PREPARING, t_time = timestamp lg + 1\<rparr>]"
    by (rule retry)
  let ?m = "foldl processLog EMPTY_RUN_METADATA pre"
  from retry [of ?m] obtain s1 where
    s1: "steps (processLog ?m lg) k = Some s1"
      "\<lparr>t_state = RETRY_REQUESTED, t_time = timestamp lg\<rparr> \<in> set (transitions s1)"
      "\<lparr>t_state = PREPARING, t_time = timestamp lg + 1\<rparr> \<in> set (transitions s1)"
    by auto
  from foldl_processLog_keeps_transitions [OF s1(1), of post] obtain s2 where
    s2: "steps (foldl processLog (processLog ?m lg) post) k = Some s2"
      "set (transitions s1) \<subseteq> set (transitions s2)" by blast
  have r: "steps (reduceLogs (pre @ lg # post)) k = Some s2"
    using s2(1) by (simp add: reduceLogs_def)
  then have s: "s = postProcessStep s2"
    using assms(7) by (simp add: extractMetadataFromLogs_def steps_postProcess)
  have "set (transitions s) = set (transitions s2)"
    by (simp add: s)
  then show "\<lparr>t_state = RETRY_REQUESTED, t_time = timestamp lg\<rparr> \<in> set (transitions s)"
    and "\<lparr>t_state = PREPARING, t_time = timestamp lg + 1\<rparr> \<in> set (transitions s)"
    using s1(2,3) s2(2) by blast+
  fix xs ys atts i
  assume h: "transitions s = xs @ \<lparr>t_state = RETRY_REQUESTED, t_time = timestamp lg\<rparr> # ys \<and>
      foldl attemptStep ([], None) xs = (atts, Some i) \<and>
      (\<forall>t \<in> set (takeWhile (\<lambda>t. t_state t \<noteq> RUNNING) ys). t_state t \<notin> set BOX_EXIT_STATES)"
  let ?t = "\<lparr>t_state = RETRY_REQUESTED, t_time = timestamp lg\<rparr>"
  let ?w = "atts[i := (atts ! i)\<lparr>att_end := Some (timestamp lg),
      att_exitState := Some RETRY_REQUESTED\<rparr>]"
  have a: "attempts s2 = []"
    using stepInv_reduceLogs [OF r] by (simp add: stepInv_def)
  have "scanInv (foldl attemptStep ([], None) xs)"
    by (rule scanInv_foldl) (simp add: scanInv_def)
  then have l: "Suc i = length atts"
    using h by (simp add: scanInv_def)
  have step: "attemptStep (atts, Some i) ?t = (?w, Some i)"
    using attemptStep_exit [of ?t atts i] by (simp add: BOX_EXIT_STATES_def)
  have wi: "?w ! i = (atts ! i)\<lparr>att_end := Some (timestamp lg),
      att_exitState := Some RETRY_REQUESTED\<rparr>"
    using l by simp
  have "Suc i = length ?w" using l by simp
  moreover have "truthy_num (att_end (?w ! i))"
    unfolding wi using assms(6) by (simp add: truthy_num_def)
  moreover have "\<forall>t \<in> set (takeWhile (\<lambda>t. t_state t \<noteq> RUNNING) ys).
      t_state t \<notin> set BOX_EXIT_STATES"
    using h by simp
  ultimately have c: "i < length (fst (foldl attemptStep (?w, Some i) ys)) \<and>
      fst (foldl attemptStep (?w, Some i) ys) ! i = ?w ! i"
    by (rule foldl_attemptStep_closed)
  have "attempts s = fst (foldl attemptStep ([], None) (xs @ ?t # ys))"
    using h by (simp add: s a buildAttempts_def)
  also have "\<dots> = fst (foldl attemptStep (?w, Some i) ys)"
    using h step by simp
  finally have "attempts s = fst (foldl attemptStep (?w, Some i) ys)" .
  with c wi show "i < length (attempts s)"
    and "attempts s ! i = (atts ! i)\<lparr>att_end := Some (timestamp lg),
      att_exitState := Some RETRY_REQUESTED\<rparr>"
    by simp_all
qed

theorem C5_retry_synthesis_witness:
  "typename (mkLog ExecutionStepUpForRetryEvent 5 (Some ''stepA'')) =
     ExecutionStepUpForRetryEvent \<and>
   stepKey (mkLog ExecutionStepUpForRetryEvent 5 (Some ''stepA'')) = Some ''stepA'' \<and>
   ''stepA'' \<noteq> [] \<and> ''stepA'' \<notin> set objectPrototypeKeys \<and>
   isSafeInteger (timestamp (mkLog ExecutionStepUpForRetryEvent 5 (Some ''stepA''))) \<and>
   timestamp (mkLog ExecutionStepUpForRetryEvent 5 (Some ''stepA'')) \<noteq> 0 \<and>
   map_option transitions (steps (extractMetadataFromLogs logs_retry_restart) ''stepA'') =
     Some ([\<lparr>t_state = PREPARING, t_time = 0\<rparr>, \<lparr>t_state = RUNNING, t_time = 0\<rparr>] @
           \<lparr>t_state = RETRY_REQUESTED, t_time = 5\<rparr> #
           [\<lparr>t_state = PREPARING, t_time = 6\<rparr>, \<lparr>t_state = RUNNING, t_time = 8\<rparr>,
            \<lparr>t_state = FAILED, t_time = 12\<rparr>]) \<and>
   foldl attemptStep ([], None)
       [\<lparr>t_state = PREPARING, t_time = 0\<rparr>, \<lparr>t_state = RUNNING, t_time = 0\<rparr>] =
     ([\<lparr>att_start = Some 0, att_end = None, att_exitState = None\<rparr>], Some 0) \<and>
   list_all (\<lambda>t. t_state t \<notin> set BOX_EXIT_STATES)
     (takeWhile (\<lambda>t. t_state t \<noteq> RUNNING)
        [\<lparr>t_state = PREPARING, t_time = 6\<rparr>, \<lparr>t_state = RUNNING, t_time = 8\<rparr>,
         \<lparr>t_state = FAILED, t_time = 12\<rparr>]) \<and>
   (\<exists>s'. steps (processLog EMPTY_RUN_METADATA
             (mkLog ExecutionStepUpForRetryEvent 5 (Some ''stepA''))) ''stepA'' = Some s' \<and>
      transitions s' =
        [\<lparr>t_state = PREPARING, t_time = 5\<rparr>, \<lparr>t_state = RETRY_REQUESTED, t_time = 5\<rparr>,
         \<lparr>t_state = PREPARING, t_time = 6\<rparr>]) \<and>
   attempts (the (steps (extractMetadataFromLogs logs_retry_restart) ''stepA'')) ! 0 =
     \<lparr>att_start = Some 0, att_end = Some 5, att_exitState = Some RETRY_REQUESTED\<rparr> \<and>
   attempts (the (steps (extractMetadataFromLogs logs_retry_restart) ''stepA'')) =
     [\<lparr>att_start = Some 0, att_end = Some 5, att_exitState = Some RETRY_REQUESTED\<rparr>,
      \<lparr>att_start = Some 8, att_end = Some 12, att_exitState = Some FAILED\<rparr>]"
proof -
  let ?lg = "mkLog ExecutionStepUpForRetryEvent 5 (Some ''stepA'')"
  let ?xs = "[\<lparr>t_state = PREPARING, t_time = 0\<rparr>, \<lparr>t_state = RUNNING, t_time = 0\<rparr>]"
  let ?ys = "[\<lparr>t_state = PREPARING, t_time = 6\<rparr>, \<lparr>t_state = RUNNING, t_time = 8\<rparr>,
       \<lparr>t_state = FAILED, t_time = 12\<rparr>]"
  let ?s = "\<lparr>step_state = FAILED, step_start = Some 0, step_end = Some 12,
      transitions = ?xs @ \<lparr>t_state = RETRY_REQUESTED, t_time = 5\<rparr> # ?ys,
      attempts = [\<lparr>att_start = Some 0, att_end = Some 5, att_exitState = Some RETRY_REQUESTED\<rparr>,
        \<lparr>att_start = Some 8, att_end = Some 12, att_exitState = Some FAILED\<rparr>],
      markers = []\<rparr>"
  have h1: "typename ?lg = ExecutionStepUpForRetryEvent"
    and h2: "stepKey ?lg = Some ''stepA''" and h3: "''stepA'' \<noteq> []"
    and ts: "timestamp ?lg = 5"
    by (simp_all add: mkLog_def)
  have h4: "''stepA'' \<notin> set objectPrototypeKeys"
    by (simp add: objectPrototypeKeys_def)
  have h5: "isSafeInteger (timestamp ?lg)" and h6: "timestamp ?lg \<noteq> 0"
    by (simp_all add: ts isSafeInteger_def)
  have l: "logs_retry_restart =
      [mkLog ExecutionStepStartEvent 0 (Some ''stepA'')] @ ?lg #
      [mkLog ExecutionStepRestartEvent 8 (Some ''stepA''),
       mkLog ExecutionStepFailureEvent 12 (Some ''stepA'')]"
    by (simp add: logs_retry_restart_def)
  have v: "steps (extractMetadataFromLogs logs_retry_restart) ''stepA'' = Some ?s"
    by (simp add: logs_retry_restart_def reducer_defs)
  have h7: "steps (extractMetadataFromLogs
      ([mkLog ExecutionStepStartEvent 0 (Some ''stepA'')] @ ?lg #
       [mkLog ExecutionStepRestartEvent 8 (Some ''stepA''),
        mkLog ExecutionStepFailureEvent 12 (Some ''stepA'')])) ''stepA'' = Some ?s"
    using v unfolding l .
  have x: "foldl attemptStep ([], None) ?xs =
      ([\<lparr>att_start = Some 0, att_end = None, att_exitState = None\<rparr>], Some 0)"
    by (simp add: attemptStep_def BOX_EXIT_STATES_def)
  have y: "\<forall>t \<in> set (takeWhile (\<lambda>t. t_state t \<noteq> RUNNING) ?ys).
      t_state t \<notin> set BOX_EXIT_STATES"
    by (simp add: BOX_EXIT_STATES_def)
  note inst = C5_retry_synthesis [OF h1 h2 h3 h4 h5 h6 h7, of EMPTY_RUN_METADATA,
      unfolded ts]
  from inst have p: "\<exists>s'. steps (processLog EMPTY_RUN_METADATA ?lg) ''stepA'' = Some s' \<and>
      transitions s' =
        [\<lparr>t_state = PREPARING, t_time = 5\<rparr>, \<lparr>t_state = RETRY_REQUESTED, t_time = 5\<rparr>,
         \<lparr>t_state = PREPARING, t_time = 6\<rparr>]"
    by (simp add: EMPTY_RUN_METADATA_def)
  from inst have "transitions ?s = ?xs @ \<lparr>t_state = RETRY_REQUESTED, t_time = 5\<rparr> # ?ys \<and>
      foldl attemptStep ([], None) ?xs =
        ([\<lparr>att_start = Some 0, att_end = None, att_exitState = None\<rparr>], Some 0) \<and>
      (\<forall>t \<in> set (takeWhile (\<lambda>t. t_state t \<noteq> RUNNING) ?ys).
         t_state t \<notin> set BOX_EXIT_STATES) \<longrightarrow>
      attempts ?s ! 0 =
        ([\<lparr>att_start = Some 0, att_end = None, att_exitState = None\<rparr>] ! 0)
          \<lparr>att_end := Some 5, att_exitState := Some RETRY_REQUESTED\<rparr>"
    by blast
  with x y have a: "attempts ?s ! 0 =
      \<lparr>att_start = Some 0, att_end = Some 5, att_exitState = Some RETRY_REQUESTED\<rparr>"
    by simp
  from h1 h2 h3 h4 h5 h6 v x y p a show ?thesis
    by (simp add: list_all_iff)
qed

subsection \<open>Arrival order\<close>
















end
